theory Spec2Isabelle
  imports Complex_Main
begin

section \<open>Relational schema and the progress trigger (database/database-schema.sql)\<close>

text \<open>
  The enum types of the schema, one constructor per label, in the order of the
  \<^verbatim>\<open>CREATE TYPE\<close> statements.
\<close>

datatype job_status = JobPending | JobRunning | JobCompleted | JobFailed | JobCancelled

datatype document_status =
  Pending | Downloading | Downloaded | Sanitizing | Sanitized | Embedding | Embedded
  | Failed | Skipped

datatype document_stage = StageOriginal | StageSanitized | StageEmbedded

type_synonym uuid = nat

text \<open>
  A row of \<^verbatim>\<open>sync_jobs\<close>. The timestamp columns are left out (they are set from
  \<^verbatim>\<open>NOW()\<close> and no counter depends on them). \<^verbatim>\<open>progress\<close> is
  \<^verbatim>\<open>NUMERIC(5, 2)\<close>: an exact decimal with two fractional digits, kept here as a
  rational. The four metrics are \<^verbatim>\<open>INTEGER\<close> columns.
\<close>

record sync_job =
  sj_id :: uuid
  sj_source :: string
  sj_status :: job_status
  sj_progress :: rat
  sj_error_message :: "string option"
  sj_fresh_start :: bool
  sj_prod_ready :: bool
  sj_created_by :: string
  documents_total :: int
  documents_processed :: int
  documents_success :: int
  documents_failed :: int

text \<open>A row of \<^verbatim>\<open>document_statuses\<close> (timestamps and processing time left out).\<close>

record document_status_row =
  ds_id :: uuid
  ds_sync_id :: uuid
  ds_document_id :: string
  ds_status :: document_status
  ds_stage :: "document_stage option"
  ds_path :: "string option"
  ds_error :: "string option"

record database =
  sync_jobs :: "sync_job list"
  document_statuses :: "document_status_row list"

datatype sql_error = UniqueViolation | ForeignKeyViolation | NumericValueOutOfRange

subsection \<open>Column types\<close>

text \<open>
  Assigning to an \<^verbatim>\<open>INTEGER\<close> column fails above \<open>2^31 - 1\<close>; assigning to a
  \<^verbatim>\<open>NUMERIC(5, 2)\<close> column rounds to two fractional digits (ties away from zero)
  and fails when the rounded value needs more than three integral digits.
\<close>

definition integer_max :: int where
  "integer_max = 2147483647"

definition to_integer :: "nat \<Rightarrow> sql_error + int" where
  "to_integer n = (if int n > integer_max then Inl NumericValueOutOfRange else Inr (int n))"

definition round_half_away :: "rat \<Rightarrow> int" where
  "round_half_away x = (if 0 \<le> x then \<lfloor>x + 1 / 2\<rfloor> else - \<lfloor>- x + 1 / 2\<rfloor>)"

definition round_scale2 :: "rat \<Rightarrow> rat" where
  "round_scale2 x = of_int (round_half_away (x * 100)) / 100"

definition to_numeric_5_2 :: "rat \<Rightarrow> sql_error + rat" where
  "to_numeric_5_2 x =
     (if \<bar>round_scale2 x\<bar> \<ge> 1000 then Inl NumericValueOutOfRange else Inr (round_scale2 x))"

subsection \<open>The trigger function \<^verbatim>\<open>update_sync_progress\<close>\<close>

text \<open>
  The common table expression \<^verbatim>\<open>counts\<close>: the rows selected by
  \<^verbatim>\<open>WHERE sync_id = NEW.sync_id\<close>, and the four aggregates over them.
\<close>

definition counts_rows :: "uuid \<Rightarrow> document_status_row list \<Rightarrow> document_status_row list" where
  "counts_rows sid rows = filter (\<lambda>r. ds_sync_id r = sid) rows"

definition counts_total :: "uuid \<Rightarrow> document_status_row list \<Rightarrow> nat" where
  "counts_total sid rows = length (counts_rows sid rows)"

definition counts_processed :: "uuid \<Rightarrow> document_status_row list \<Rightarrow> nat" where
  "counts_processed sid rows =
     length (filter (\<lambda>r. ds_status r \<notin> {Pending, Downloading}) (counts_rows sid rows))"

definition counts_success :: "uuid \<Rightarrow> document_status_row list \<Rightarrow> nat" where
  "counts_success sid rows = length (filter (\<lambda>r. ds_status r = Embedded) (counts_rows sid rows))"

definition counts_failed :: "uuid \<Rightarrow> document_status_row list \<Rightarrow> nat" where
  "counts_failed sid rows = length (filter (\<lambda>r. ds_status r = Failed) (counts_rows sid rows))"

text \<open>
  The \<^verbatim>\<open>CASE\<close> expression of the \<^verbatim>\<open>SET progress = ...\<close> clause, before it is
  stored. The engine carries the quotient to at least 16 significant digits before the
  column rounds it to two; for counts that fit an \<^verbatim>\<open>INTEGER\<close> the value stored is the
  same as for the exact quotient, which is what the model rounds.
\<close>

definition progress_expr :: "nat \<Rightarrow> nat \<Rightarrow> rat" where
  "progress_expr n_processed n_total =
     (if n_total > 0 then (of_nat n_processed / of_nat n_total) * 100 else 0)"

text \<open>
  The \<^verbatim>\<open>UPDATE sync_jobs SET ... FROM counts WHERE sync_jobs.id = NEW.sync_id\<close>: every
  job row with that id gets the five values; when no row matches nothing is evaluated.
  A value that does not fit its column aborts the statement.
\<close>

definition set_counts :: "int \<Rightarrow> int \<Rightarrow> int \<Rightarrow> int \<Rightarrow> rat \<Rightarrow> sync_job \<Rightarrow> sync_job" where
  "set_counts t p s f pr j =
     j\<lparr>documents_total := t, documents_processed := p, documents_success := s,
       documents_failed := f, sj_progress := pr\<rparr>"

definition update_sync_progress ::
  "string \<Rightarrow> document_status_row \<Rightarrow> database \<Rightarrow> sql_error + database" where
  "update_sync_progress tg_table_name new db =
     (if tg_table_name = ''document_statuses'' then
        (let sid = ds_sync_id new;
             rows = document_statuses db;
             n_total = counts_total sid rows;
             n_processed = counts_processed sid rows;
             n_success = counts_success sid rows;
             n_failed = counts_failed sid rows
         in if \<not> (\<exists>j \<in> set (sync_jobs db). sj_id j = sid) then Inr db
            else
              (case to_integer n_total of Inl e \<Rightarrow> Inl e | Inr t \<Rightarrow>
              (case to_integer n_processed of Inl e \<Rightarrow> Inl e | Inr p \<Rightarrow>
              (case to_integer n_success of Inl e \<Rightarrow> Inl e | Inr s \<Rightarrow>
              (case to_integer n_failed of Inl e \<Rightarrow> Inl e | Inr f \<Rightarrow>
              (case to_numeric_5_2 (progress_expr n_processed n_total) of Inl e \<Rightarrow> Inl e
               | Inr pr \<Rightarrow>
                   Inr (db\<lparr>sync_jobs :=
                          map (\<lambda>j. if sj_id j = sid then set_counts t p s f pr j else j)
                            (sync_jobs db)\<rparr>)))))))
      else Inr db)"

subsection \<open>Writes to \<^verbatim>\<open>document_statuses\<close>\<close>

text \<open>
  A statement on \<^verbatim>\<open>document_statuses\<close>: \<^verbatim>\<open>INSERT\<close> of some rows, or
  \<^verbatim>\<open>UPDATE ... SET ... WHERE ...\<close>, given by its \<^verbatim>\<open>WHERE\<close> condition and by what
  its \<^verbatim>\<open>SET\<close> clause makes of a row. \<open>new_rows\<close> are the rows the statement writes
  (\<^verbatim>\<open>NEW\<close>, one per row inserted or updated) and \<open>written_rows\<close> is the table it leaves.
\<close>

datatype ds_write =
  Insert "document_status_row list"
  | Update "document_status_row \<Rightarrow> bool" "document_status_row \<Rightarrow> document_status_row"

fun new_rows :: "ds_write \<Rightarrow> database \<Rightarrow> document_status_row list" where
  "new_rows (Insert news) db = news"
| "new_rows (Update cond upd) db = map upd (filter cond (document_statuses db))"

fun written_rows :: "ds_write \<Rightarrow> database \<Rightarrow> document_status_row list" where
  "written_rows (Insert news) db = document_statuses db @ news"
| "written_rows (Update cond upd) db =
     map (\<lambda>r. if cond r then upd r else r) (document_statuses db)"

text \<open>
  The constraints of the table: the primary key and \<^verbatim>\<open>UNIQUE (sync_id, document_id)\<close>
  on the table the statement leaves, and the foreign key to \<^verbatim>\<open>sync_jobs\<close> on the rows
  it writes. (PostgreSQL checks a unique index row by row while the statement runs, so
  it refuses some updates of many rows that are accepted here; a statement it accepts
  is accepted here, with the same result.)
\<close>

definition check_constraints :: "ds_write \<Rightarrow> database \<Rightarrow> sql_error option" where
  "check_constraints w db =
     (if \<not> distinct (map ds_id (written_rows w db)) then Some UniqueViolation
      else if \<not> distinct (map (\<lambda>r. (ds_sync_id r, ds_document_id r)) (written_rows w db))
        then Some UniqueViolation
      else if \<exists>r \<in> set (new_rows w db). ds_sync_id r \<notin> sj_id ` set (sync_jobs db)
        then Some ForeignKeyViolation
      else None)"

text \<open>
  \<^verbatim>\<open>CREATE TRIGGER update_sync_progress_trigger AFTER INSERT OR UPDATE ON
  document_statuses FOR EACH ROW\<close>: once the statement has written its rows the
  trigger function runs for each of them in turn, with \<^verbatim>\<open>NEW\<close> the row. An error of the
  statement or of a trigger aborts the statement.
\<close>

fun fire_triggers :: "document_status_row list \<Rightarrow> database \<Rightarrow> sql_error + database" where
  "fire_triggers [] db = Inr db"
| "fire_triggers (new # news) db =
     (case update_sync_progress ''document_statuses'' new db of
        Inl e \<Rightarrow> Inl e
      | Inr db' \<Rightarrow> fire_triggers news db')"

definition apply_write :: "ds_write \<Rightarrow> database \<Rightarrow> sql_error + database" where
  "apply_write w db =
     (case check_constraints w db of
        Some e \<Rightarrow> Inl e
      | None \<Rightarrow> fire_triggers (new_rows w db) (db\<lparr>document_statuses := written_rows w db\<rparr>))"

text \<open>Two statements that write one row: an insert, and an update by primary key.\<close>

definition insert_row :: "document_status_row \<Rightarrow> ds_write" where
  "insert_row new = Insert [new]"

definition update_row :: "uuid \<Rightarrow> (document_status_row \<Rightarrow> document_status_row) \<Rightarrow> ds_write" where
  "update_row rid upd = Update (\<lambda>r. ds_id r = rid) upd"


text \<open>
  A job row holds what the trigger computes from the rows \<open>rows\<close>: the four counts and
  the progress as the column stores it.
\<close>

definition recomputed :: "document_status_row list \<Rightarrow> sync_job \<Rightarrow> bool" where
  "recomputed rows j =
     (documents_total j = int (counts_total (sj_id j) rows)
      \<and> documents_processed j = int (counts_processed (sj_id j) rows)
      \<and> documents_success j = int (counts_success (sj_id j) rows)
      \<and> documents_failed j = int (counts_failed (sj_id j) rows)
      \<and> sj_progress j = round_scale2 (progress_expr (counts_processed (sj_id j) rows)
            (counts_total (sj_id j) rows)))"

subsection \<open>A concrete database\<close>

text \<open>
  One running job for source \<^verbatim>\<open>mitre\<close> with two documents, one embedded and one
  pending; the insert of a third, pending document; and the database after that insert.
\<close>

definition ex_job :: sync_job where
  "ex_job = \<lparr>sj_id = 1, sj_source = ''mitre'', sj_status = JobRunning, sj_progress = 0,
     sj_error_message = None, sj_fresh_start = False, sj_prod_ready = False,
     sj_created_by = ''scheduler'', documents_total = 0, documents_processed = 0,
     documents_success = 0, documents_failed = 0\<rparr>"

definition ex_row :: "uuid \<Rightarrow> string \<Rightarrow> document_status \<Rightarrow> document_status_row" where
  "ex_row rid doc st = \<lparr>ds_id = rid, ds_sync_id = 1, ds_document_id = doc, ds_status = st,
     ds_stage = None, ds_path = None, ds_error = None\<rparr>"

definition ex_db :: database where
  "ex_db = \<lparr>sync_jobs = [ex_job],
     document_statuses = [ex_row 10 ''T1001'' Embedded, ex_row 11 ''T1002'' Pending]\<rparr>"

definition ex_insert :: ds_write where
  "ex_insert = insert_row (ex_row 12 ''T1003'' Pending)"

definition ex_db_after :: database where
  "ex_db_after = \<lparr>sync_jobs =
       [ex_job\<lparr>documents_total := 3, documents_processed := 1, documents_success := 1,
          documents_failed := 0, sj_progress := 3333 / 100\<rparr>],
     document_statuses = [ex_row 10 ''T1001'' Embedded, ex_row 11 ''T1002'' Pending,
       ex_row 12 ''T1003'' Pending]\<rparr>"

subsection \<open>Sequences of writes\<close>

text \<open>
  A status change keeps a row counted: a row that \<open>processed\<close> counts (its status is
  neither \<open>pending\<close> nor \<open>downloading\<close>) is still counted by it afterwards, and so for
  \<open>success\<close> (\<open>embedded\<close>) and \<open>failed\<close> (\<open>failed\<close>). A write keeps the rows
  counted: an insert always does; an update does when it leaves every row it changes in
  its job and its status changes keep the rows counted.
\<close>

definition stays_counted :: "document_status \<Rightarrow> document_status \<Rightarrow> bool" where
  "stays_counted old new =
     ((old \<notin> {Pending, Downloading} \<longrightarrow> new \<notin> {Pending, Downloading})
      \<and> (old = Embedded \<longrightarrow> new = Embedded)
      \<and> (old = Failed \<longrightarrow> new = Failed))"


text \<open>
  Modelled from the spec: the per-document state machine of section 4.2
  (\<^verbatim>\<open>recordTransition\<close> is not among the sources, and the schema has no constraint on
  status changes). The pipeline runs \<open>pending \<rightarrow> downloading \<rightarrow> downloaded \<rightarrow> sanitizing
  \<rightarrow> sanitized \<rightarrow> embedding \<rightarrow> embedded\<close>; \<open>failed\<close> is reachable from any non-terminal
  state and \<open>skipped\<close> only from \<open>pending\<close>.
\<close>

fun is_terminal_document :: "document_status \<Rightarrow> bool" where
  "is_terminal_document Embedded = True"
| "is_terminal_document Failed = True"
| "is_terminal_document Skipped = True"
| "is_terminal_document _ = False"

fun next_status :: "document_status \<Rightarrow> document_status option" where
  "next_status Pending = Some Downloading"
| "next_status Downloading = Some Downloaded"
| "next_status Downloaded = Some Sanitizing"
| "next_status Sanitizing = Some Sanitized"
| "next_status Sanitized = Some Embedding"
| "next_status Embedding = Some Embedded"
| "next_status _ = None"

definition transition_allowed :: "document_status \<Rightarrow> document_status \<Rightarrow> bool" where
  "transition_allowed old new =
     (next_status old = Some new
      \<or> (new = Failed \<and> \<not> is_terminal_document old)
      \<or> (new = Skipped \<and> old = Pending))"

text \<open>
  A statement that fails leaves the database as it was. \<open>run_writes\<close> runs a sequence
  of statements, and \<open>writes_keep_counted\<close> says that each keeps the rows counted in
  the state it is run in.
\<close>

definition run_write :: "ds_write \<Rightarrow> database \<Rightarrow> database" where
  "run_write w db = (case apply_write w db of Inl e \<Rightarrow> db | Inr db' \<Rightarrow> db')"



text \<open>
  The four counters of every job agree with the job's rows, as they do for a job just
  created (no rows, counters \<open>0\<close>) and after every write for the job.
\<close>

definition counters_in_sync :: "database \<Rightarrow> bool" where
  "counters_in_sync db =
     list_all (\<lambda>j.
         documents_total j = int (counts_total (sj_id j) (document_statuses db))
       \<and> documents_processed j = int (counts_processed (sj_id j) (document_statuses db))
       \<and> documents_success j = int (counts_success (sj_id j) (document_statuses db))
       \<and> documents_failed j = int (counts_failed (sj_id j) (document_statuses db)))
       (sync_jobs db)"



text \<open>
  Further writes on the concrete database: document \<^verbatim>\<open>T1002\<close> starts downloading and
  is downloaded; every document of the job is set back to pending.
\<close>

definition ex_counted :: "int \<Rightarrow> int \<Rightarrow> int \<Rightarrow> int \<Rightarrow> rat \<Rightarrow> sync_job" where
  "ex_counted t p s f pr = ex_job\<lparr>documents_total := t, documents_processed := p,
     documents_success := s, documents_failed := f, sj_progress := pr\<rparr>"




text \<open>
  A database with a second job, for \<^verbatim>\<open>cpr_blogs\<close>, and one embedded document of the
  first job; and an update that moves that document to the second job.
\<close>

definition ex_two_jobs :: database where
  "ex_two_jobs = \<lparr>sync_jobs =
       [ex_counted 1 1 1 0 100, ex_job\<lparr>sj_id := 2, sj_source := ''cpr_blogs''\<rparr>],
     document_statuses = [ex_row 10 ''T1001'' Embedded]\<rparr>"

definition ex_move :: ds_write where
  "ex_move = update_row 10 (\<lambda>r. r\<lparr>ds_sync_id := 2\<rparr>)"


section \<open>Sync Job Registry (spec section 4.1)\<close>

text \<open>
  The sources hold the table \<^verbatim>\<open>sync_jobs\<close> but not the operations on it; the schema has
  no constraint that ties a source to a single pending or running job. The operations
  below are therefore taken from the spec, each as one atomic step on the database (the
  spec asks for a serializable transaction per mutation, section 5).

  Modelled from the spec: the error taxonomy of section 7, as far as the operations
  below raise it.
\<close>

datatype core_error = InvalidTransitionError | ConflictError | PreconditionError
  | UnknownJobError | PromotionFailure string

text \<open>A job is non-terminal while it is \<open>pending\<close> or \<open>running\<close>.\<close>

fun non_terminal :: "job_status \<Rightarrow> bool" where
  "non_terminal JobPending = True"
| "non_terminal JobRunning = True"
| "non_terminal _ = False"

text \<open>
  The id of a new row stands for \<^verbatim>\<open>uuid_generate_v4()\<close>: a value no row has yet. The
  other columns of a new job take the defaults of the table.
\<close>

definition fresh_id :: "sync_job list \<Rightarrow> uuid" where
  "fresh_id jobs = Suc (Max (set (0 # map sj_id jobs)))"

definition new_job :: "uuid \<Rightarrow> string \<Rightarrow> bool \<Rightarrow> string \<Rightarrow> sync_job" where
  "new_job jid source freshStart creator =
     \<lparr>sj_id = jid, sj_source = source, sj_status = JobPending, sj_progress = 0,
      sj_error_message = None, sj_fresh_start = freshStart, sj_prod_ready = False,
      sj_created_by = creator, documents_total = 0, documents_processed = 0,
      documents_success = 0, documents_failed = 0\<rparr>"

text \<open>
  Modelled from the spec: \<^verbatim>\<open>createJob(source, freshStart)\<close> of section 4.1, which is not
  among the sources. It "fails with ConflictError if a non-terminal job already exists
  for that source" and otherwise creates the job \<open>pending\<close>. The creator is the
  \<^verbatim>\<open>created_by\<close> column, which the table requires.
\<close>

definition createJob ::
  "string \<Rightarrow> bool \<Rightarrow> string \<Rightarrow> database \<Rightarrow> core_error + (sync_job \<times> database)" where
  "createJob source freshStart creator db =
     (if \<exists>j \<in> set (sync_jobs db). sj_source j = source \<and> non_terminal (sj_status j)
      then Inl ConflictError
      else
        (let job = new_job (fresh_id (sync_jobs db)) source freshStart creator
         in Inr (job, db\<lparr>sync_jobs := sync_jobs db @ [job]\<rparr>)))"

text \<open>
  Modelled from the spec: \<^verbatim>\<open>transition(jobId, newStatus, errorMessage?)\<close> of section 4.1,
  which is not among the sources. The states are \<open>pending \<rightarrow> running \<rightarrow> {completed, failed,
  cancelled}\<close>; any other change fails with \<open>InvalidTransitionError\<close>, \<open>failed\<close> needs
  a non-empty error message and \<open>completed\<close> needs every document of the job in a terminal
  state.
\<close>

fun job_transition_allowed :: "job_status \<Rightarrow> job_status \<Rightarrow> bool" where
  "job_transition_allowed JobPending JobRunning = True"
| "job_transition_allowed JobRunning JobCompleted = True"
| "job_transition_allowed JobRunning JobFailed = True"
| "job_transition_allowed JobRunning JobCancelled = True"
| "job_transition_allowed _ _ = False"

definition transition ::
  "uuid \<Rightarrow> job_status \<Rightarrow> string option \<Rightarrow> database \<Rightarrow> core_error + database" where
  "transition jobId newStatus errorMessage db =
     (case find (\<lambda>j. sj_id j = jobId) (sync_jobs db) of
        None \<Rightarrow> Inl UnknownJobError
      | Some job \<Rightarrow>
          if \<not> job_transition_allowed (sj_status job) newStatus then Inl InvalidTransitionError
          else if newStatus = JobFailed \<and> (errorMessage = None \<or> errorMessage = Some [])
            then Inl PreconditionError
          else if newStatus = JobCompleted
                \<and> (\<exists>r \<in> set (document_statuses db).
                      ds_sync_id r = jobId \<and> \<not> is_terminal_document (ds_status r))
            then Inl PreconditionError
          else Inr (db\<lparr>sync_jobs :=
                 map (\<lambda>j. if sj_id j = jobId
                          then j\<lparr>sj_status := newStatus, sj_error_message := errorMessage\<rparr>
                          else j) (sync_jobs db)\<rparr>))"

text \<open>
  A history of the registry: calls of the two operations in any order, from any callers.
  A call that fails leaves the database as it was.
\<close>

datatype registry_op = CreateJob string bool string | Transition uuid job_status "string option"

fun registry_step :: "registry_op \<Rightarrow> database \<Rightarrow> database" where
  "registry_step (CreateJob source freshStart creator) db =
     (case createJob source freshStart creator db of Inl e \<Rightarrow> db | Inr (job, db') \<Rightarrow> db')"
| "registry_step (Transition jobId newStatus errorMessage) db =
     (case transition jobId newStatus errorMessage db of Inl e \<Rightarrow> db | Inr db' \<Rightarrow> db')"

fun registry_run :: "registry_op list \<Rightarrow> database \<Rightarrow> database" where
  "registry_run [] db = db"
| "registry_run (op # ops) db = registry_run ops (registry_step op db)"

text \<open>
  At most one non-terminal job per source: the sources of the non-terminal jobs are
  pairwise distinct. \<open>registry_ok\<close> adds the primary key of the table.
\<close>

definition one_non_terminal_per_source :: "database \<Rightarrow> bool" where
  "one_non_terminal_per_source db =
     distinct (map sj_source (filter (\<lambda>j. non_terminal (sj_status j)) (sync_jobs db)))"

definition registry_ok :: "database \<Rightarrow> bool" where
  "registry_ok db = (distinct (map sj_id (sync_jobs db)) \<and> one_non_terminal_per_source db)"

text \<open>
  Three attempts on the concrete database, whose job for \<^verbatim>\<open>mitre\<close> is running: one
  for \<^verbatim>\<open>mitre\<close> and two for \<^verbatim>\<open>cpr_blogs\<close>.
\<close>

definition ex_registry_ops :: "registry_op list" where
  "ex_registry_ops = [CreateJob ''mitre'' False ''scheduler'',
     CreateJob ''cpr_blogs'' False ''scheduler'', CreateJob ''cpr_blogs'' True ''scheduler'']"

section \<open>Alias Promotion Protocol (spec section 4.5)\<close>

text \<open>
  The sources hold the tables \<^verbatim>\<open>opensearch_indices\<close> and \<^verbatim>\<open>alias_actions\<close> (the
  records below keep the columns the protocol reads or writes; both status columns are
  \<^verbatim>\<open>VARCHAR\<close> with the values listed in the schema's comments) but not the promotion
  itself.
\<close>

datatype index_status = IndexCreated | IndexActive | IndexDeprecated | IndexDeleted

datatype action_status = ActionSuccess | ActionFailed

record opensearch_index =
  ix_environment :: string
  ix_region :: string
  ix_source :: string
  ix_index_name :: string
  ix_alias_name :: "string option"
  ix_status :: index_status
  ix_document_count :: int

record alias_action =
  aa_environment :: string
  aa_region :: string
  aa_source :: string
  aa_alias_name :: string
  aa_old_index_name :: "string option"
  aa_new_index_name :: string
  aa_action_type :: string
  aa_performed_by :: string
  aa_reason :: "string option"
  aa_status :: action_status

record index_store =
  opensearch_indices :: "opensearch_index list"
  alias_actions :: "alias_action list"

text \<open>
  A promotion request: the namespace, the alias, the index that serves it and the index
  to promote, the actor, and of the originating SyncJob the expected document count and
  the \<^verbatim>\<open>prod_ready\<close> flag. \<open>swap_result\<close> is the search engine's answer to the one
  atomic \<^verbatim>\<open>swapAlias\<close> request.
\<close>

record promotion =
  pr_environment :: string
  pr_region :: string
  pr_source :: string
  pr_alias_name :: string
  pr_old_index :: string
  pr_new_index :: string
  pr_actor :: string
  pr_expected_count :: int
  pr_prod_ready :: bool

datatype swap_result = SwapDone | SwapFailed string

definition in_namespace :: "promotion \<Rightarrow> opensearch_index \<Rightarrow> bool" where
  "in_namespace p ix =
     (ix_environment ix = pr_environment p \<and> ix_region ix = pr_region p
      \<and> ix_source ix = pr_source p)"

definition index_status_of :: "promotion \<Rightarrow> string \<Rightarrow> index_store \<Rightarrow> index_status option" where
  "index_status_of p name st =
     map_option ix_status
       (find (\<lambda>ix. in_namespace p ix \<and> ix_index_name ix = name) (opensearch_indices st))"

text \<open>Step 2: the new index holds documents, as many as the SyncJob expects.\<close>

definition validated :: "promotion \<Rightarrow> index_store \<Rightarrow> bool" where
  "validated p st =
     (case find (\<lambda>ix. in_namespace p ix \<and> ix_index_name ix = pr_new_index p)
             (opensearch_indices st) of
        None \<Rightarrow> False
      | Some ix \<Rightarrow> ix_document_count ix > 0 \<and> ix_document_count ix = pr_expected_count p)"

definition set_index_status :: "promotion \<Rightarrow> string \<Rightarrow> index_status \<Rightarrow> index_store \<Rightarrow> index_store" where
  "set_index_status p name s st =
     st\<lparr>opensearch_indices :=
          map (\<lambda>ix. if in_namespace p ix \<and> ix_index_name ix = name
                    then ix\<lparr>ix_status := s\<rparr> else ix) (opensearch_indices st)\<rparr>"

definition log_action :: "promotion \<Rightarrow> action_status \<Rightarrow> string option \<Rightarrow> index_store \<Rightarrow> index_store" where
  "log_action p s reason st =
     st\<lparr>alias_actions := alias_actions st @
          [\<lparr>aa_environment = pr_environment p, aa_region = pr_region p,
            aa_source = pr_source p, aa_alias_name = pr_alias_name p,
            aa_old_index_name = Some (pr_old_index p), aa_new_index_name = pr_new_index p,
            aa_action_type = ''update'', aa_performed_by = pr_actor p, aa_reason = reason,
            aa_status = s\<rparr>]\<rparr>"

text \<open>
  Modelled from the spec: the promotion of section 4.5, which is not among the sources.
  Production needs \<^verbatim>\<open>prod_ready\<close>; the new index is validated (step 2); the alias is
  repointed in one request (step 3); on success the old index becomes \<open>deprecated\<close>, the
  new one \<open>active\<close> and one \<open>AliasAction\<close> with status \<open>success\<close> is appended
  (step 4); on failure of step 3 both indices are left as they are and one
  \<open>AliasAction\<close> with status \<open>failed\<close> and the failure reason is appended (step 5).
  The spec does not say what a failed validation records; here it records nothing.
\<close>

definition promote ::
  "promotion \<Rightarrow> swap_result \<Rightarrow> index_store \<Rightarrow> core_error option \<times> index_store" where
  "promote p swapAlias st =
     (if pr_environment p = ''production'' \<and> \<not> pr_prod_ready p
        then (Some PreconditionError, st)
      else if \<not> validated p st then (Some (PromotionFailure ''validation''), st)
      else
        (case swapAlias of
           SwapDone \<Rightarrow>
             (None,
              log_action p ActionSuccess None
                (set_index_status p (pr_new_index p) IndexActive
                   (set_index_status p (pr_old_index p) IndexDeprecated st)))
         | SwapFailed reason \<Rightarrow>
             (Some (PromotionFailure reason), log_action p ActionFailed (Some reason) st)))"

text \<open>An attempt reaches the repoint step when production readiness and the validation let it.\<close>

definition reaches_repoint :: "promotion \<Rightarrow> index_store \<Rightarrow> bool" where
  "reaches_repoint p st =
     ((pr_environment p = ''production'' \<longrightarrow> pr_prod_ready p) \<and> validated p st)"

text \<open>
  A staging namespace with an active index, a populated new index and an empty log.
\<close>

definition ex_index :: "string \<Rightarrow> index_status \<Rightarrow> opensearch_index" where
  "ex_index name s = \<lparr>ix_environment = ''staging'', ix_region = ''eu'', ix_source = ''mitre'',
     ix_index_name = name, ix_alias_name = Some ''mitre-current'', ix_status = s,
     ix_document_count = 97\<rparr>"

definition ex_store :: index_store where
  "ex_store = \<lparr>opensearch_indices = [ex_index ''mitre-v1'' IndexActive,
     ex_index ''mitre-v2'' IndexCreated], alias_actions = []\<rparr>"

definition ex_promotion :: promotion where
  "ex_promotion = \<lparr>pr_environment = ''staging'', pr_region = ''eu'', pr_source = ''mitre'',
     pr_alias_name = ''mitre-current'', pr_old_index = ''mitre-v1'', pr_new_index = ''mitre-v2'',
     pr_actor = ''operator'', pr_expected_count = 97, pr_prod_ready = False\<rparr>"

section \<open>The migration runner (unnamed/part_000)\<close>

subsection \<open>The database session\<close>

text \<open>
  What the runner's connection sees of PostgreSQL. The data are the schema objects the
  migrations act on (of any type \<open>'s\<close>) and the table \<^verbatim>\<open>migrations\<close>: \<open>None\<close> while
  the table does not exist, otherwise the names of its rows in insertion order.
\<close>

record 's pg_data =
  schema_objects :: 's
  migrations :: "string list option"

text \<open>
  A session holds the committed data and its transaction state: idle, inside the
  implicit transaction of the query message being run, inside a transaction block
  opened by \<^verbatim>\<open>BEGIN\<close> (with the block's working copy), or inside a failed block.
\<close>

datatype 's tx_state = TxIdle | TxImplicit "'s pg_data" | TxBlock "'s pg_data" | TxAborted

record 's session =
  committed :: "'s pg_data"
  tx :: "'s tx_state"

datatype run_error = QueryFailed | InFailedTransaction | FileUnreadable

text \<open>
  A statement is transaction control or any other statement, given by its effect on the
  data (\<open>None\<close> when it raises an error).
\<close>

datatype 's stmt = Begin | Commit | Rollback | Statement "'s pg_data \<Rightarrow> 's pg_data option"

text \<open>
  One query message runs its statements in order. Outside a block they form an implicit
  transaction, committed at the end of the message. \<^verbatim>\<open>BEGIN\<close> turns the implicit
  transaction into a block and inside a block only warns; \<^verbatim>\<open>COMMIT\<close> commits whatever
  transaction is open, also one opened by an earlier message, and outside one only
  warns; \<^verbatim>\<open>ROLLBACK\<close> discards it. A failing statement ends the message: the implicit
  transaction is rolled back, a block becomes a failed block, in which every statement
  but \<^verbatim>\<open>COMMIT\<close> and \<^verbatim>\<open>ROLLBACK\<close> fails.
\<close>

definition start_implicit :: "'s session \<Rightarrow> 's session" where
  "start_implicit s = (case tx s of TxIdle \<Rightarrow> s\<lparr>tx := TxImplicit (committed s)\<rparr> | _ \<Rightarrow> s)"

definition end_implicit :: "'s session \<Rightarrow> 's session" where
  "end_implicit s =
     (case tx s of TxImplicit d \<Rightarrow> \<lparr>committed = d, tx = TxIdle\<rparr> | _ \<Rightarrow> s)"

fun exec_stmt :: "'s stmt \<Rightarrow> 's session \<Rightarrow> run_error option \<times> 's session" where
  "exec_stmt Begin s =
     (case tx s of
        TxIdle \<Rightarrow> (None, s\<lparr>tx := TxBlock (committed s)\<rparr>)
      | TxImplicit d \<Rightarrow> (None, s\<lparr>tx := TxBlock d\<rparr>)
      | TxBlock d \<Rightarrow> (None, s)
      | TxAborted \<Rightarrow> (Some InFailedTransaction, s))"
| "exec_stmt Commit s =
     (case tx s of
        TxIdle \<Rightarrow> (None, s)
      | TxImplicit d \<Rightarrow> (None, \<lparr>committed = d, tx = TxIdle\<rparr>)
      | TxBlock d \<Rightarrow> (None, \<lparr>committed = d, tx = TxIdle\<rparr>)
      | TxAborted \<Rightarrow> (None, s\<lparr>tx := TxIdle\<rparr>))"
| "exec_stmt Rollback s = (None, s\<lparr>tx := TxIdle\<rparr>)"
| "exec_stmt (Statement f) s =
     (case tx s of
        TxIdle \<Rightarrow>
          (case f (committed s) of
             None \<Rightarrow> (Some QueryFailed, s)
           | Some d' \<Rightarrow> (None, s\<lparr>committed := d'\<rparr>))
      | TxImplicit d \<Rightarrow>
          (case f d of
             None \<Rightarrow> (Some QueryFailed, s\<lparr>tx := TxIdle\<rparr>)
           | Some d' \<Rightarrow> (None, s\<lparr>tx := TxImplicit d'\<rparr>))
      | TxBlock d \<Rightarrow>
          (case f d of
             None \<Rightarrow> (Some QueryFailed, s\<lparr>tx := TxAborted\<rparr>)
           | Some d' \<Rightarrow> (None, s\<lparr>tx := TxBlock d'\<rparr>))
      | TxAborted \<Rightarrow> (Some InFailedTransaction, s))"

fun exec_stmts :: "'s stmt list \<Rightarrow> 's session \<Rightarrow> run_error option \<times> 's session" where
  "exec_stmts [] s = (None, s)"
| "exec_stmts (x # xs) s =
     (case exec_stmt x (start_implicit s) of
        (Some e, s') \<Rightarrow> (Some e, s')
      | (None, s') \<Rightarrow> exec_stmts xs s')"

definition query :: "'s stmt list \<Rightarrow> 's session \<Rightarrow> run_error option \<times> 's session" where
  "query sql s = (case exec_stmts sql s of (r, s') \<Rightarrow> (r, end_implicit s'))"

text \<open>
  The runner's own statements: \<^verbatim>\<open>CREATE TABLE IF NOT EXISTS migrations\<close>,
  \<^verbatim>\<open>INSERT INTO migrations (name) VALUES ($1)\<close> and \<^verbatim>\<open>SELECT name FROM migrations\<close>.
\<close>

definition create_migrations_table :: "'s stmt" where
  "create_migrations_table =
     Statement (\<lambda>d. Some (case migrations d of None \<Rightarrow> d\<lparr>migrations := Some []\<rparr>
                              | Some names \<Rightarrow> d))"

definition insert_migration :: "string \<Rightarrow> 's stmt" where
  "insert_migration name =
     Statement (\<lambda>d. case migrations d of None \<Rightarrow> None
                     | Some names \<Rightarrow> Some (d\<lparr>migrations := Some (names @ [name])\<rparr>))"

definition select_names :: "'s session \<Rightarrow> (run_error + string list) \<times> 's session" where
  "select_names s =
     (case tx s of
        TxIdle \<Rightarrow>
          (case migrations (committed s) of None \<Rightarrow> (Inl QueryFailed, s)
           | Some names \<Rightarrow> (Inr names, s))
      | TxImplicit d \<Rightarrow>
          (case migrations d of None \<Rightarrow> (Inl QueryFailed, s\<lparr>tx := TxIdle\<rparr>)
           | Some names \<Rightarrow> (Inr names, end_implicit s))
      | TxBlock d \<Rightarrow>
          (case migrations d of None \<Rightarrow> (Inl QueryFailed, s\<lparr>tx := TxAborted\<rparr>)
           | Some names \<Rightarrow> (Inr names, s))
      | TxAborted \<Rightarrow> (Inl InFailedTransaction, s))"

subsection \<open>Migration files and \<^verbatim>\<open>runMigrations\<close>\<close>

text \<open>
  The text of a migration file, sent as one query message. Its statements act on the
  schema objects; as \<^verbatim>\<open>migrations/001_initial.sql\<close> does, a file may also open and
  commit a transaction of its own.
\<close>

datatype 's file_stmt = FileBegin | FileCommit | FileSql "'s \<Rightarrow> 's option"

fun as_stmt :: "'s file_stmt \<Rightarrow> 's stmt" where
  "as_stmt FileBegin = Begin"
| "as_stmt FileCommit = Commit"
| "as_stmt (FileSql g) =
     Statement (\<lambda>d. case g (schema_objects d) of None \<Rightarrow> None
                     | Some x \<Rightarrow> Some (d\<lparr>schema_objects := x\<rparr>))"

text \<open>
  The directory \<^verbatim>\<open>migrations\<close>: the names \<^verbatim>\<open>readdirSync\<close> returns, in its order, and
  what \<^verbatim>\<open>readFileSync\<close> returns for a name (\<open>None\<close> when it throws).
\<close>

record 's migrations_dir =
  readdirSync :: "string list"
  readFileSync :: "string \<Rightarrow> 's file_stmt list option"

text \<open>The loop \<^verbatim>\<open>for (const file of migrationFiles)\<close>; an exception leaves it.\<close>

fun apply_migrations ::
  "string list \<Rightarrow> 's migrations_dir \<Rightarrow> 's session \<Rightarrow> run_error option \<times> 's session" where
  "apply_migrations [] dir s = (None, s)"
| "apply_migrations (file # files) dir s =
     (case readFileSync dir file of
        None \<Rightarrow> (Some FileUnreadable, s)
      | Some sql \<Rightarrow>
          (case query (map as_stmt sql) s of
             (Some e, s1) \<Rightarrow> (Some e, s1)
           | (None, s1) \<Rightarrow>
               (case query [insert_migration file] s1 of
                  (Some e, s2) \<Rightarrow> (Some e, s2)
                | (None, s2) \<Rightarrow> apply_migrations files dir s2)))"

text \<open>
  The body of the \<^verbatim>\<open>try\<close>, up to the first exception, and \<^verbatim>\<open>runMigrations\<close> with its
  \<^verbatim>\<open>catch\<close>, which sends \<^verbatim>\<open>ROLLBACK\<close> and rethrows. The result is the exception
  thrown to the caller, if any, and the session afterwards.
\<close>

definition try_block :: "'s migrations_dir \<Rightarrow> 's session \<Rightarrow> run_error option \<times> 's session" where
  "try_block dir s =
     (case query [Begin] s of
        (Some e, s1) \<Rightarrow> (Some e, s1)
      | (None, s1) \<Rightarrow>
          (case query [create_migrations_table] s1 of
             (Some e, s2) \<Rightarrow> (Some e, s2)
           | (None, s2) \<Rightarrow>
               (case select_names s2 of
                  (Inl e, s3) \<Rightarrow> (Some e, s3)
                | (Inr appliedMigrations, s3) \<Rightarrow>
                    (case apply_migrations
                            (filter (\<lambda>f. f \<notin> set appliedMigrations) (readdirSync dir)) dir s3 of
                       (Some e, s4) \<Rightarrow> (Some e, s4)
                     | (None, s4) \<Rightarrow> query [Commit] s4))))"

definition runMigrations :: "'s migrations_dir \<Rightarrow> 's session \<Rightarrow> run_error option \<times> 's session" where
  "runMigrations dir s =
     (case try_block dir s of
        (None, s') \<Rightarrow> (None, s')
      | (Some e, s') \<Rightarrow> (Some e, snd (query [Rollback] s')))"

subsection \<open>The repository's migration\<close>

text \<open>
  With the schema objects a list of table names: \<^verbatim>\<open>CREATE TABLE\<close> fails when the table
  exists, \<^verbatim>\<open>ALTER TABLE\<close> when it does not. \<open>initial_sql\<close> is
  \<^verbatim>\<open>migrations/001_initial.sql\<close>: \<^verbatim>\<open>BEGIN\<close>, two tables, \<^verbatim>\<open>COMMIT\<close>. \<open>ex_repo_dir\<close>
  is the directory as the repository has it, \<open>ex_dir\<close> the directory with a second
  migration that alters a table no migration has created, and \<open>ex_fresh\<close> an idle
  session on an empty database.
\<close>

definition create_table :: "string \<Rightarrow> string list file_stmt" where
  "create_table name =
     FileSql (\<lambda>tables. if name \<in> set tables then None else Some (tables @ [name]))"

definition alter_table :: "string \<Rightarrow> string list file_stmt" where
  "alter_table name = FileSql (\<lambda>tables. if name \<in> set tables then Some tables else None)"

definition initial_sql :: "string list file_stmt list" where
  "initial_sql = [FileBegin, create_table ''sync_jobs'', create_table ''documents'', FileCommit]"

definition ex_dir :: "string list migrations_dir" where
  "ex_dir = \<lparr>readdirSync = [''001_initial.sql'', ''002_add_index.sql''],
     readFileSync = (\<lambda>f. if f = ''001_initial.sql'' then Some initial_sql
        else if f = ''002_add_index.sql'' then Some [alter_table ''document_statuses'']
        else None)\<rparr>"


definition ex_fresh :: "string list session" where
  "ex_fresh = \<lparr>committed = \<lparr>schema_objects = [], migrations = None\<rparr>, tx = TxIdle\<rparr>"

subsection \<open>What a run is expected to do\<close>



definition recorded :: "'s pg_data \<Rightarrow> string list" where
  "recorded d = (case migrations d of None \<Rightarrow> [] | Some names \<Rightarrow> names)"

definition current :: "'s session \<Rightarrow> 's pg_data" where
  "current s = (case tx s of TxImplicit d \<Rightarrow> d | TxBlock d \<Rightarrow> d | _ \<Rightarrow> committed s)"

definition between_queries :: "'s session \<Rightarrow> bool" where
  "between_queries s = (case tx s of TxIdle \<Rightarrow> True | TxBlock d \<Rightarrow> True | _ \<Rightarrow> False)"


text \<open>
  Inside the runner's transaction block: nothing has been committed since the data
  \<open>c0\<close>, and the block is open, or has failed together with the query that returned
  \<open>r\<close>.
\<close>

definition in_block :: "'s pg_data \<Rightarrow> run_error option \<Rightarrow> 's session \<Rightarrow> bool" where
  "in_block c0 r s =
     (committed s = c0
      \<and> (case tx s of TxBlock d \<Rightarrow> True | TxAborted \<Rightarrow> r \<noteq> None | _ \<Rightarrow> False))"

text \<open>The session after the repository's migration has run on the empty database.\<close>

definition ex_migrated :: "string list session" where
  "ex_migrated = \<lparr>committed = \<lparr>schema_objects = [''sync_jobs'', ''documents''],
       migrations = Some [''001_initial.sql'']\<rparr>, tx = TxIdle\<rparr>"

section \<open>The job coordinator (unnamed/part_001)\<close>

text \<open>
  \<^verbatim>\<open>JobCoordinator\<close> runs on one JavaScript thread: the synchronous part of a call of
  \<^verbatim>\<open>runJob\<close>, and the delivery of one worker event with every promise reaction it
  sets off, each run to their end before anything else happens. The model takes these
  as its steps. Workers are numbered in the order they are created.

  A worker's promise settles once: the first \<^verbatim>\<open>message\<close> resolves it, the first
  \<^verbatim>\<open>error\<close> rejects it with that error, the first \<^verbatim>\<open>exit\<close> with a code other than
  \<open>0\<close> rejects it with \<^verbatim>\<open>new Error(`Worker stopped with code ${code}`)\<close>; what comes
  after the first of these changes nothing.
\<close>

type_synonym worker = nat

datatype failure = WorkerError string | StoppedWithCode int

datatype outcome = Resolved string | Rejected failure

datatype worker_event = Message string | Error string | Exit int

text \<open>
  A call of \<^verbatim>\<open>runJob\<close> is suspended at \<^verbatim>\<open>await Promise.race(this.running.values())\<close>
  on the promises of the workers then running, or has created its worker and returned
  that worker's promise, or has thrown out of the \<^verbatim>\<open>await\<close>.
\<close>

datatype call_state = Blocked "worker list" | Started worker | Thrown failure

text \<open>
  The coordinator: \<^verbatim>\<open>maxParallel\<close>; the keys of the map \<^verbatim>\<open>running\<close> in insertion
  order; the promises that have settled, by worker; the calls of \<^verbatim>\<open>runJob\<close> so far, in
  order; and the number of workers created. The constructor's default is
  \<^verbatim>\<open>maxParallel = 3\<close>, and the module exports \<^verbatim>\<open>new JobCoordinator()\<close>.
\<close>

record coordinator =
  maxParallel :: nat
  running :: "worker list"
  settled :: "worker \<Rightarrow> outcome option"
  calls :: "call_state list"
  spawned :: nat

definition JobCoordinator :: "nat \<Rightarrow> coordinator" where
  "JobCoordinator n =
     \<lparr>maxParallel = n, running = [], settled = (\<lambda>w. None), calls = [], spawned = 0\<rparr>"

definition default_coordinator :: coordinator where
  "default_coordinator = JobCoordinator 3"

text \<open>
  The synchronous part of \<^verbatim>\<open>runJob(jobType, data)\<close>: at \<^verbatim>\<open>running.size >= maxParallel\<close>
  the call suspends on the race; otherwise it creates the worker, stores its promise in
  \<^verbatim>\<open>running\<close> and returns it. The job type and the data choose the worker's script
  and input and play no part in the coordination; they are left out.
\<close>

definition runJob :: "coordinator \<Rightarrow> coordinator" where
  "runJob c =
     (if length (running c) \<ge> maxParallel c
      then c\<lparr>calls := calls c @ [Blocked (running c)]\<rparr>
      else c\<lparr>running := running c @ [spawned c],
             calls := calls c @ [Started (spawned c)],
             spawned := Suc (spawned c)\<rparr>)"

text \<open>The three handlers: what an event settles a pending promise with, if at all.\<close>

fun on_event :: "worker_event \<Rightarrow> outcome option" where
  "on_event (Message v) = Some (Resolved v)"
| "on_event (Error e) = Some (Rejected (WorkerError e))"
| "on_event (Exit code) = (if code \<noteq> 0 then Some (Rejected (StoppedWithCode code)) else None)"

text \<open>
  Worker \<open>w\<close> settles with \<open>out\<close>. Every call suspended on a race that holds
  \<open>w\<close>'s promise continues, in the order of the calls: on a resolution it goes on past
  the \<^verbatim>\<open>if\<close>, which is not evaluated again, and creates its worker; on a rejection the
  \<^verbatim>\<open>await\<close> throws and the call creates none. \<open>ws\<close> is \<^verbatim>\<open>running\<close>, \<open>n\<close> the
  number of workers created.
\<close>

fun resume ::
  "worker \<Rightarrow> outcome \<Rightarrow> call_state list \<Rightarrow> worker list \<Rightarrow> nat
     \<Rightarrow> call_state list \<times> worker list \<times> nat" where
  "resume w out [] ws n = ([], ws, n)"
| "resume w out (Blocked race # cs) ws n =
     (if w \<in> set race then
        (case out of
           Resolved v \<Rightarrow>
             (case resume w out cs (ws @ [n]) (Suc n) of
                (cs', ws', n') \<Rightarrow> (Started n # cs', ws', n'))
         | Rejected f \<Rightarrow>
             (case resume w out cs ws n of
                (cs', ws', n') \<Rightarrow> (Thrown f # cs', ws', n')))
      else
        (case resume w out cs ws n of
           (cs', ws', n') \<Rightarrow> (Blocked race # cs', ws', n')))"
| "resume w out (Started k # cs) ws n =
     (case resume w out cs ws n of (cs', ws', n') \<Rightarrow> (Started k # cs', ws', n'))"
| "resume w out (Thrown f # cs) ws n =
     (case resume w out cs ws n of (cs', ws', n') \<Rightarrow> (Thrown f # cs', ws', n'))"

text \<open>
  Settling records the outcome, runs \<^verbatim>\<open>promise.finally(() => this.running.delete(worker))\<close>
  and resumes the suspended calls. An event reaches a worker that exists and whose
  promise is still pending; any other event changes nothing.
\<close>

definition settle :: "worker \<Rightarrow> outcome \<Rightarrow> coordinator \<Rightarrow> coordinator" where
  "settle w out c =
     (case resume w out (calls c) (filter (\<lambda>x. x \<noteq> w) (running c)) (spawned c) of
        (cs', ws', n') \<Rightarrow>
          c\<lparr>settled := (settled c)(w := Some out), running := ws', calls := cs',
            spawned := n'\<rparr>)"

definition deliver :: "worker \<Rightarrow> worker_event \<Rightarrow> coordinator \<Rightarrow> coordinator" where
  "deliver w ev c =
     (if w < spawned c \<and> settled c w = None then
        (case on_event ev of None \<Rightarrow> c | Some out \<Rightarrow> settle w out c)
      else c)"

text \<open>A history of the coordinator: calls of \<^verbatim>\<open>runJob\<close> and worker events, in any order.\<close>

datatype event = RunJob | Deliver worker worker_event

fun step :: "event \<Rightarrow> coordinator \<Rightarrow> coordinator" where
  "step RunJob c = runJob c"
| "step (Deliver w ev) c = deliver w ev c"

fun run_events :: "event list \<Rightarrow> coordinator \<Rightarrow> coordinator" where
  "run_events [] c = c"
| "run_events (e # es) c = run_events es (step e c)"

text \<open>
  The promise the \<open>i\<close>-th call of \<^verbatim>\<open>runJob\<close> returned, as its submitter sees it:
  pending (\<open>None\<close>) while the call is suspended, then the worker's promise, or rejected
  with what the \<^verbatim>\<open>await\<close> threw.
\<close>

definition returned :: "coordinator \<Rightarrow> nat \<Rightarrow> outcome option" where
  "returned c i =
     (case calls c ! i of
        Blocked race \<Rightarrow> None
      | Started w \<Rightarrow> settled c w
      | Thrown f \<Rightarrow> Some (Rejected f))"

text \<open>Five calls made one after the other, before any worker has answered.\<close>

definition ex_five_calls :: "event list" where
  "ex_five_calls = [RunJob, RunJob, RunJob, RunJob, RunJob]"

subsection \<open>Invariants of the coordinator\<close>

fun is_started :: "call_state \<Rightarrow> bool" where
  "is_started (Started w) = True"
| "is_started _ = False"

text \<open>How \<open>resume\<close> relates a call before and after worker \<open>w\<close> settles with \<open>out\<close>,
  when the workers started meanwhile are those from \<open>n\<close> up to \<open>n'\<close>.\<close>

definition resumed :: "worker \<Rightarrow> outcome \<Rightarrow> nat \<Rightarrow> nat \<Rightarrow> call_state \<Rightarrow> call_state \<Rightarrow> bool" where
  "resumed w out n n' c c' =
     (case c of
        Blocked race \<Rightarrow>
          (if w \<in> set race then
             (case out of Resolved v \<Rightarrow> (\<exists>k. c' = Started k \<and> n \<le> k \<and> k < n')
              | Rejected f \<Rightarrow> c' = Thrown f)
           else c' = c)
      | _ \<Rightarrow> c' = c)"

text \<open>
  What holds of every coordinator a history leads to: settled promises belong to workers
  that exist; the workers in \<^verbatim>\<open>running\<close>, and those a suspended call races on, exist
  and are pending; and there are as many workers as calls that have started one.
\<close>

definition call_ok :: "coordinator \<Rightarrow> call_state \<Rightarrow> bool" where
  "call_ok c cs =
     (case cs of
        Blocked race \<Rightarrow> list_all (\<lambda>w. w < spawned c \<and> settled c w = None) race
      | Started w \<Rightarrow> w < spawned c
      | Thrown f \<Rightarrow> True)"

definition coordinator_inv :: "coordinator \<Rightarrow> bool" where
  "coordinator_inv c =
     ((\<forall>w. settled c w \<noteq> None \<longrightarrow> w < spawned c)
      \<and> list_all (\<lambda>w. w < spawned c \<and> settled c w = None) (running c)
      \<and> list_all (call_ok c) (calls c)
      \<and> spawned c = length (filter is_started (calls c)))"

text \<open>Three calls: the default coordinator is at its ceiling.\<close>

definition ex_busy :: "event list" where
  "ex_busy = [RunJob, RunJob, RunJob]"

section \<open>Properties of the progress trigger\<close>

lemma set_counts_simps:
  "sj_id (set_counts t p s f pr j) = sj_id j"
  "documents_total (set_counts t p s f pr j) = t"
  "documents_processed (set_counts t p s f pr j) = p"
  "documents_success (set_counts t p s f pr j) = s"
  "documents_failed (set_counts t p s f pr j) = f"
  "sj_progress (set_counts t p s f pr j) = pr"
  by (simp_all add: set_counts_def)

lemma to_integer_Inr: "to_integer n = Inr t \<Longrightarrow> t = int n"
  by (simp add: to_integer_def split: if_splits)

lemma to_numeric_5_2_Inr: "to_numeric_5_2 x = Inr v \<Longrightarrow> v = round_scale2 x"
  by (simp add: to_numeric_5_2_def split: if_splits)

lemma trigger_rows:
  assumes "update_sync_progress tg new db = Inr db'"
  shows "document_statuses db' = document_statuses db"
  using assms
  by (auto simp: update_sync_progress_def Let_def split: if_splits sum.splits)

lemma trigger_job_ids:
  assumes "update_sync_progress tg new db = Inr db'"
  shows "map sj_id (sync_jobs db') = map sj_id (sync_jobs db)"
  using assms
  by (auto simp: update_sync_progress_def Let_def set_counts_simps split: if_splits sum.splits)

lemma trigger_counts:
  assumes "update_sync_progress ''document_statuses'' new db = Inr db'"
    and "j \<in> set (sync_jobs db')" and "sj_id j = ds_sync_id new"
  shows "documents_total j = int (counts_total (ds_sync_id new) (document_statuses db))
    \<and> documents_processed j = int (counts_processed (ds_sync_id new) (document_statuses db))
    \<and> documents_success j = int (counts_success (ds_sync_id new) (document_statuses db))
    \<and> documents_failed j = int (counts_failed (ds_sync_id new) (document_statuses db))
    \<and> sj_progress j = round_scale2 (progress_expr
          (counts_processed (ds_sync_id new) (document_statuses db))
          (counts_total (ds_sync_id new) (document_statuses db)))"
  using assms
  by (auto simp: update_sync_progress_def Let_def set_counts_simps
      dest!: to_integer_Inr to_numeric_5_2_Inr split: if_splits sum.splits)

lemma trigger_other_jobs:
  assumes "update_sync_progress tg new db = Inr db'"
    and "j \<in> set (sync_jobs db')" and "sj_id j \<noteq> ds_sync_id new"
  shows "j \<in> set (sync_jobs db)"
  using assms
  by (auto simp: update_sync_progress_def Let_def set_counts_simps split: if_splits sum.splits)

text \<open>
  The triggers of one statement leave the rows alone and keep the ids of the jobs; a job
  none of them recomputes is left as it was, and every job one of them recomputes ends
  with the values computed from the rows the statement has written.
\<close>

lemma fire_triggers_rows:
  assumes "fire_triggers news db = Inr db'"
  shows "document_statuses db' = document_statuses db"
  using assms
proof (induction news arbitrary: db)
  case Nil
  then show ?case by simp
next
  case (Cons new news)
  then obtain db1 where t: "update_sync_progress ''document_statuses'' new db = Inr db1"
    and rest: "fire_triggers news db1 = Inr db'"
    by (auto split: sum.splits)
  from Cons.IH [OF rest] trigger_rows [OF t] show ?case by simp
qed

lemma fire_triggers_job_ids:
  assumes "fire_triggers news db = Inr db'"
  shows "map sj_id (sync_jobs db') = map sj_id (sync_jobs db)"
  using assms
proof (induction news arbitrary: db)
  case Nil
  then show ?case by simp
next
  case (Cons new news)
  then obtain db1 where t: "update_sync_progress ''document_statuses'' new db = Inr db1"
    and rest: "fire_triggers news db1 = Inr db'"
    by (auto split: sum.splits)
  from Cons.IH [OF rest] trigger_job_ids [OF t] show ?case by simp
qed


lemma fire_triggers_recomputes:
  assumes "fire_triggers news db = Inr db'"
    and "\<And>j. j \<in> set (sync_jobs db) \<Longrightarrow> sj_id j \<in> S \<Longrightarrow> recomputed (document_statuses db) j"
    and "j \<in> set (sync_jobs db')" and "sj_id j \<in> S \<union> ds_sync_id ` set news"
  shows "recomputed (document_statuses db) j"
  using assms
proof (induction news arbitrary: db S)
  case Nil
  then show ?case by simp
next
  case (Cons new news)
  from Cons.prems(1) obtain db1 where
    t: "update_sync_progress ''document_statuses'' new db = Inr db1"
    and rest: "fire_triggers news db1 = Inr db'"
    by (auto split: sum.splits)
  have rows1: "document_statuses db1 = document_statuses db"
    by (rule trigger_rows [OF t])
  have step: "recomputed (document_statuses db1) k"
    if k: "k \<in> set (sync_jobs db1)" "sj_id k \<in> insert (ds_sync_id new) S" for k
  proof (cases "sj_id k = ds_sync_id new")
    case True
    from trigger_counts [OF t k(1) True] True show ?thesis
      by (simp add: recomputed_def rows1)
  next
    case False
    from trigger_other_jobs [OF t k(1) False] k(2) False Cons.prems(2) [of k]
    show ?thesis by (simp add: rows1)
  qed
  from Cons.prems(4) have "sj_id j \<in> insert (ds_sync_id new) S \<union> ds_sync_id ` set news"
    by auto
  from Cons.IH [OF rest step Cons.prems(3) this] show ?case
    by (simp add: rows1)
qed

lemma apply_write_InrD:
  assumes "apply_write w db = Inr db'"
  shows "fire_triggers (new_rows w db) (db\<lparr>document_statuses := written_rows w db\<rparr>) = Inr db'"
    and "document_statuses db' = written_rows w db"
    and "map sj_id (sync_jobs db') = map sj_id (sync_jobs db)"
    and "new \<in> set (new_rows w db) \<Longrightarrow> ds_sync_id new \<in> sj_id ` set (sync_jobs db)"
proof -
  from assms have c: "check_constraints w db = None"
    and f: "fire_triggers (new_rows w db) (db\<lparr>document_statuses := written_rows w db\<rparr>)
              = Inr db'"
    by (auto simp: apply_write_def split: option.splits)
  show "fire_triggers (new_rows w db) (db\<lparr>document_statuses := written_rows w db\<rparr>) = Inr db'"
    by (rule f)
  show "document_statuses db' = written_rows w db"
    using fire_triggers_rows [OF f] by simp
  show "map sj_id (sync_jobs db') = map sj_id (sync_jobs db)"
    using fire_triggers_job_ids [OF f] by simp
  show "ds_sync_id new \<in> sj_id ` set (sync_jobs db)" if "new \<in> set (new_rows w db)"
    using c that by (auto simp: check_constraints_def split: if_splits)
qed

lemma write_recomputes:
  assumes "apply_write w db = Inr db'" and "new \<in> set (new_rows w db)"
    and "j \<in> set (sync_jobs db')" and "sj_id j = ds_sync_id new"
  shows "recomputed (document_statuses db') j"
proof -
  note d = apply_write_InrD [OF assms(1)]
  from assms(2,4) have "sj_id j \<in> {} \<union> ds_sync_id ` set (new_rows w db)"
    by auto
  from fire_triggers_recomputes [OF d(1) _ assms(3) this] d(2) show ?thesis
    by simp
qed

lemma write_keeps_job:
  assumes "apply_write w db = Inr db'" and "new \<in> set (new_rows w db)"
  shows "\<exists>j \<in> set (sync_jobs db'). sj_id j = ds_sync_id new"
proof -
  note d = apply_write_InrD [OF assms(1)]
  from d(4) [OF assms(2)] have "ds_sync_id new \<in> set (map sj_id (sync_jobs db))"
    by simp
  then have "ds_sync_id new \<in> set (map sj_id (sync_jobs db'))"
    by (simp only: d(3))
  then show ?thesis by auto
qed

lemma counts_inline:
  "counts_total sid rows = length (filter (\<lambda>r. ds_sync_id r = sid) rows)"
  "counts_processed sid rows =
     length (filter (\<lambda>r. ds_sync_id r = sid \<and> ds_status r \<notin> {Pending, Downloading}) rows)"
  "counts_success sid rows =
     length (filter (\<lambda>r. ds_sync_id r = sid \<and> ds_status r = Embedded) rows)"
  "counts_failed sid rows =
     length (filter (\<lambda>r. ds_sync_id r = sid \<and> ds_status r = Failed) rows)"
  by (simp_all add: counts_total_def counts_processed_def counts_success_def
      counts_failed_def counts_rows_def conj_commute)

lemma round_scale2_zero: "round_scale2 0 = 0"
  by (simp add: round_scale2_def round_half_away_def floor_eq_iff)

text \<open>
  Claim C1, as amended. After a successful \<^verbatim>\<open>INSERT\<close> into, or \<^verbatim>\<open>UPDATE\<close> of,
  \<^verbatim>\<open>document_statuses\<close>, of one row or of many, the job that a written row references
  (\<^verbatim>\<open>NEW.sync_id\<close>) exists, and its counters are functions of that job's rows in the
  new state: \<open>total\<close> is the number of rows, \<open>processed\<close> the number whose status is
  neither \<open>pending\<close> nor \<open>downloading\<close>, \<open>success\<close> the number \<open>embedded\<close>,
  \<open>failed\<close> the number \<open>failed\<close>, and \<open>progress\<close> is \<open>0\<close> when \<open>total = 0\<close>
  and otherwise \<open>processed / total * 100\<close> rounded to the two fractional digits of
  the \<^verbatim>\<open>NUMERIC(5, 2)\<close> column. (The trigger recomputes the job of \<^verbatim>\<open>NEW.sync_id\<close>
  only: an update that moves a row to another job leaves the counters of the job it
  left as they were.)
\<close>

theorem progress_counters_after_write:
  assumes "apply_write w db = Inr db'" and "new \<in> set (new_rows w db)"
  shows "(\<exists>j \<in> set (sync_jobs db'). sj_id j = ds_sync_id new) \<and>
    (\<forall>j \<in> set (sync_jobs db'). sj_id j = ds_sync_id new \<longrightarrow>
       documents_total j =
         int (length (filter (\<lambda>r. ds_sync_id r = sj_id j) (document_statuses db'))) \<and>
       documents_processed j =
         int (length (filter (\<lambda>r. ds_sync_id r = sj_id j
                \<and> ds_status r \<notin> {Pending, Downloading}) (document_statuses db'))) \<and>
       documents_success j =
         int (length (filter (\<lambda>r. ds_sync_id r = sj_id j \<and> ds_status r = Embedded)
                (document_statuses db'))) \<and>
       documents_failed j =
         int (length (filter (\<lambda>r. ds_sync_id r = sj_id j \<and> ds_status r = Failed)
                (document_statuses db'))) \<and>
       sj_progress j =
         (if documents_total j = 0 then 0
          else round_scale2
                 (of_int (documents_processed j) / of_int (documents_total j) * 100)))"
proof (intro conjI ballI impI)
  show "\<exists>j \<in> set (sync_jobs db'). sj_id j = ds_sync_id new"
    by (rule write_keeps_job [OF assms])
next
  fix j assume j: "j \<in> set (sync_jobs db')" "sj_id j = ds_sync_id new"
  from write_recomputes [OF assms j] have
    c: "documents_total j = int (counts_total (sj_id j) (document_statuses db'))"
      "documents_processed j = int (counts_processed (sj_id j) (document_statuses db'))"
      "documents_success j = int (counts_success (sj_id j) (document_statuses db'))"
      "documents_failed j = int (counts_failed (sj_id j) (document_statuses db'))"
      "sj_progress j = round_scale2 (progress_expr
          (counts_processed (sj_id j) (document_statuses db'))
          (counts_total (sj_id j) (document_statuses db')))"
    by (simp_all add: recomputed_def)
  show "documents_total j =
         int (length (filter (\<lambda>r. ds_sync_id r = sj_id j) (document_statuses db')))"
    using c(1) by (simp add: counts_inline)
  show "documents_processed j =
         int (length (filter (\<lambda>r. ds_sync_id r = sj_id j
                \<and> ds_status r \<notin> {Pending, Downloading}) (document_statuses db')))"
    using c(2) by (simp add: counts_inline)
  show "documents_success j =
         int (length (filter (\<lambda>r. ds_sync_id r = sj_id j \<and> ds_status r = Embedded)
                (document_statuses db')))"
    using c(3) by (simp add: counts_inline)
  show "documents_failed j =
         int (length (filter (\<lambda>r. ds_sync_id r = sj_id j \<and> ds_status r = Failed)
                (document_statuses db')))"
    using c(4) by (simp add: counts_inline)
  show "sj_progress j =
         (if documents_total j = 0 then 0
          else round_scale2
                 (of_int (documents_processed j) / of_int (documents_total j) * 100))"
    using c(1,2,5) by (simp add: progress_expr_def round_scale2_zero)
qed

lemma ex_insert_run: "apply_write ex_insert ex_db = Inr ex_db_after"
  by code_simp

lemma ex_insert_new: "ex_row 12 ''T1003'' Pending \<in> set (new_rows ex_insert ex_db)"
  by (simp add: ex_insert_def insert_row_def)

theorem progress_counters_after_write_witness:
  "apply_write ex_insert ex_db = Inr ex_db_after \<and>
   ex_row 12 ''T1003'' Pending \<in> set (new_rows ex_insert ex_db) \<and>
   (\<exists>j \<in> set (sync_jobs ex_db_after). sj_id j = 1 \<and> documents_total j = 3 \<and>
      documents_processed j = 1 \<and> documents_success j = 1 \<and> documents_failed j = 0 \<and>
      sj_progress j = round_scale2 (1 / 3 * 100))"
proof -
  from progress_counters_after_write [OF ex_insert_run ex_insert_new]
  obtain j where j: "j \<in> set (sync_jobs ex_db_after)"
    "sj_id j = ds_sync_id (ex_row 12 ''T1003'' Pending)"
    and c: "documents_total j =
         int (length (filter (\<lambda>r. ds_sync_id r = sj_id j) (document_statuses ex_db_after)))"
      "documents_processed j =
         int (length (filter (\<lambda>r. ds_sync_id r = sj_id j
                \<and> ds_status r \<notin> {Pending, Downloading}) (document_statuses ex_db_after)))"
      "documents_success j =
         int (length (filter (\<lambda>r. ds_sync_id r = sj_id j \<and> ds_status r = Embedded)
                (document_statuses ex_db_after)))"
      "documents_failed j =
         int (length (filter (\<lambda>r. ds_sync_id r = sj_id j \<and> ds_status r = Failed)
                (document_statuses ex_db_after)))"
      "sj_progress j =
         (if documents_total j = 0 then 0
          else round_scale2
                 (of_int (documents_processed j) / of_int (documents_total j) * 100))"
    by blast
  have id: "sj_id j = 1"
    using j(2) by (simp add: ex_row_def)
  have "documents_total j = 3" "documents_processed j = 1" "documents_success j = 1"
    "documents_failed j = 0"
    using c(1-4) by (simp_all add: id ex_db_after_def ex_row_def)
  with c(5) j(1) id ex_insert_run ex_insert_new show ?thesis
    by auto
qed

text \<open>
  The trigger recomputes the job of \<^verbatim>\<open>NEW.sync_id\<close> only. When an update moves the one
  document of job \<open>1\<close> to job \<open>2\<close>, job \<open>2\<close> counts it, and job \<open>1\<close>, left
  without rows, still shows a total of \<open>1\<close>.
\<close>

lemma moved_row_leaves_counters:
  "counters_in_sync ex_two_jobs \<and>
   map ds_sync_id (document_statuses (run_write ex_move ex_two_jobs)) = [2] \<and>
   map documents_total (sync_jobs (run_write ex_move ex_two_jobs)) = [1, 1] \<and>
   \<not> counters_in_sync (run_write ex_move ex_two_jobs)"
  by code_simp

text \<open>
  The claim as stated, with \<open>progress = processed / total * 100\<close> exactly, fails: with
  one of three documents processed the column holds \<open>33.33\<close>, not \<open>100 / 3\<close>.
\<close>

theorem progress_exact_counterexample:
  "apply_write ex_insert ex_db = Inr ex_db_after \<and>
   map documents_processed (sync_jobs ex_db_after) = [1] \<and>
   map documents_total (sync_jobs ex_db_after) = [3] \<and>
   map sj_progress (sync_jobs ex_db_after) = [3333 / 100] \<and>
   (3333 / 100 :: rat) \<noteq> 1 / 3 * 100"
  using ex_insert_run by (simp add: ex_db_after_def ex_job_def)

lemma counts_processed_le_total: "counts_processed sid rows \<le> counts_total sid rows"
  by (simp add: counts_processed_def counts_total_def)

lemma progress_expr_bounds:
  assumes "p \<le> t"
  shows "0 \<le> progress_expr p t" and "progress_expr p t \<le> 100"
proof -
  show "0 \<le> progress_expr p t"
    by (simp add: progress_expr_def)
  show "progress_expr p t \<le> 100"
  proof (cases "t > 0")
    case True
    then show ?thesis
      using assms by (simp add: progress_expr_def divide_le_eq)
  next
    case False
    then show ?thesis by (simp add: progress_expr_def)
  qed
qed

lemma round_scale2_bounds:
  assumes "0 \<le> x" and "x \<le> 100"
  shows "0 \<le> round_scale2 x" and "round_scale2 x \<le> 100"
proof -
  have r: "round_half_away (x * 100) = \<lfloor>x * 100 + 1 / 2\<rfloor>"
    using assms(1) by (simp add: round_half_away_def)
  have "0 \<le> \<lfloor>x * 100 + 1 / 2\<rfloor>"
    using assms(1) by simp
  then show "0 \<le> round_scale2 x"
    by (simp add: round_scale2_def r)
  have "x * 100 + 1 / 2 < 10001" using assms(2) by simp
  then have "\<lfloor>x * 100 + 1 / 2\<rfloor> < 10001"
    by (simp add: floor_less_iff)
  then have "\<lfloor>x * 100 + 1 / 2\<rfloor> \<le> 10000" by simp
  then have "(of_int \<lfloor>x * 100 + 1 / 2\<rfloor> :: rat) \<le> of_int 10000"
    by (simp only: of_int_le_iff)
  then show "round_scale2 x \<le> 100"
    by (simp add: round_scale2_def r)
qed

text \<open>
  Claim C10. After a successful \<^verbatim>\<open>INSERT\<close> into, or \<^verbatim>\<open>UPDATE\<close> of,
  \<^verbatim>\<open>document_statuses\<close>, the job that a written row references exists and its
  recomputed progress lies in the closed interval from \<open>0\<close> to \<open>100\<close>.
\<close>

theorem progress_in_range:
  assumes "apply_write w db = Inr db'" and "new \<in> set (new_rows w db)"
  shows "(\<exists>j \<in> set (sync_jobs db'). sj_id j = ds_sync_id new) \<and>
    (\<forall>j \<in> set (sync_jobs db'). sj_id j = ds_sync_id new \<longrightarrow>
       0 \<le> sj_progress j \<and> sj_progress j \<le> 100)"
proof (intro conjI ballI impI)
  show "\<exists>j \<in> set (sync_jobs db'). sj_id j = ds_sync_id new"
    by (rule write_keeps_job [OF assms])
next
  fix j assume j: "j \<in> set (sync_jobs db')" "sj_id j = ds_sync_id new"
  from write_recomputes [OF assms j] have p: "sj_progress j = round_scale2 (progress_expr
      (counts_processed (sj_id j) (document_statuses db'))
      (counts_total (sj_id j) (document_statuses db')))"
    by (simp add: recomputed_def)
  note b = progress_expr_bounds [OF counts_processed_le_total, of "sj_id j" "document_statuses db'"]
  show "0 \<le> sj_progress j"
    unfolding p by (rule round_scale2_bounds(1) [OF b])
  show "sj_progress j \<le> 100"
    unfolding p by (rule round_scale2_bounds(2) [OF b])
qed

theorem progress_in_range_witness:
  "apply_write ex_insert ex_db = Inr ex_db_after \<and>
   ex_row 12 ''T1003'' Pending \<in> set (new_rows ex_insert ex_db) \<and>
   (\<exists>j \<in> set (sync_jobs ex_db_after). sj_id j = 1 \<and> sj_progress j = 3333 / 100 \<and>
      0 \<le> sj_progress j \<and> sj_progress j \<le> 100)"
proof -
  from progress_in_range [OF ex_insert_run ex_insert_new]
  obtain j where j: "j \<in> set (sync_jobs ex_db_after)"
    "sj_id j = ds_sync_id (ex_row 12 ''T1003'' Pending)"
    "0 \<le> sj_progress j" "sj_progress j \<le> 100"
    by blast
  have "sj_id j = 1"
    using j(2) by (simp add: ex_row_def)
  moreover have "sj_progress j = 3333 / 100"
    using j(1) by (simp add: ex_db_after_def)
  ultimately show ?thesis
    using j ex_insert_run ex_insert_new by auto
qed

text \<open>Every edge of the per-document state machine of the spec keeps a row counted.\<close>

lemma transition_stays_counted:
  assumes "new = old \<or> transition_allowed old new"
  shows "stays_counted old new"
  using assms by (cases old; cases new; simp add: transition_allowed_def stays_counted_def)
























section \<open>Properties of the Sync Job Registry\<close>

lemma fresh_id_fresh: "j \<in> set jobs \<Longrightarrow> sj_id j < fresh_id jobs"
proof -
  assume "j \<in> set jobs"
  then have "sj_id j \<in> set (0 # map sj_id jobs)" by simp
  then have "sj_id j \<le> Max (set (0 # map sj_id jobs))"
    by (intro Max_ge) simp_all
  then show ?thesis by (simp add: fresh_id_def)
qed

lemma createJob_ok:
  assumes "registry_ok db" and "createJob source freshStart creator db = Inr (job, db')"
  shows "registry_ok db'"
proof -
  from assms(2) have none: "\<not> (\<exists>j \<in> set (sync_jobs db). sj_source j = source
      \<and> non_terminal (sj_status j))"
    and job: "job = new_job (fresh_id (sync_jobs db)) source freshStart creator"
    and db': "db' = db\<lparr>sync_jobs := sync_jobs db @ [job]\<rparr>"
    by (auto simp: createJob_def Let_def split: if_splits)
  have "sj_id job \<notin> sj_id ` set (sync_jobs db)"
  proof
    assume "sj_id job \<in> sj_id ` set (sync_jobs db)"
    then obtain j where "j \<in> set (sync_jobs db)" "sj_id j = sj_id job" by auto
    with fresh_id_fresh [of j "sync_jobs db"] show False
      by (simp add: job new_job_def)
  qed
  moreover have "sj_source job
      \<notin> sj_source ` set (filter (\<lambda>j. non_terminal (sj_status j)) (sync_jobs db))"
    using none by (auto simp: job new_job_def)
  ultimately show ?thesis
    using assms(1) by (simp add: registry_ok_def one_non_terminal_per_source_def db')
qed

lemma distinct_filter_map_sub:
  assumes "distinct (map g (filter P xs))"
    and "\<And>x. x \<in> set xs \<Longrightarrow> Q (f x) \<Longrightarrow> P x" and "\<And>x. x \<in> set xs \<Longrightarrow> g (f x) = g x"
  shows "distinct (map g (filter Q (map f xs)))
    \<and> set (map g (filter Q (map f xs))) \<subseteq> set (map g (filter P xs))"
  using assms
proof (induction xs)
  case Nil
  then show ?case by simp
next
  case (Cons x xs)
  from Cons.prems have d: "distinct (map g (filter P xs))"
    by (simp split: if_splits)
  from Cons.IH [OF d] Cons.prems(2,3) have ih: "distinct (map g (filter Q (map f xs)))"
    "set (map g (filter Q (map f xs))) \<subseteq> set (map g (filter P xs))"
    by simp_all
  show ?case
  proof (cases "Q (f x)")
    case True
    then have px: "P x" using Cons.prems(2) by simp
    with Cons.prems(1) have "g x \<notin> set (map g (filter P xs))" by simp
    with ih(2) have "g x \<notin> set (map g (filter Q (map f xs)))" by blast
    with ih True px Cons.prems(3) [of x] show ?thesis by auto
  next
    case False
    with ih show ?thesis by auto
  qed
qed

lemma transition_InrD:
  assumes "transition jobId newStatus errorMessage db = Inr db'"
  shows "\<exists>job. find (\<lambda>j. sj_id j = jobId) (sync_jobs db) = Some job
    \<and> job_transition_allowed (sj_status job) newStatus
    \<and> db' = db\<lparr>sync_jobs := map (\<lambda>j. if sj_id j = jobId
                 then j\<lparr>sj_status := newStatus, sj_error_message := errorMessage\<rparr> else j)
              (sync_jobs db)\<rparr>"
proof (cases "find (\<lambda>j. sj_id j = jobId) (sync_jobs db)")
  case None
  with assms show ?thesis by (simp add: transition_def)
next
  case (Some job)
  with assms show ?thesis
    by (simp add: transition_def split: if_splits)
qed

lemma map_status_ids:
  "map sj_id (map (\<lambda>j. if sj_id j = jobId
       then j\<lparr>sj_status := newStatus, sj_error_message := errorMessage\<rparr> else j) jobs)
   = map sj_id jobs"
  by (induction jobs) simp_all

lemma allowed_non_terminal:
  "job_transition_allowed old new \<Longrightarrow> non_terminal new \<Longrightarrow> non_terminal old"
  by (cases old; cases new) simp_all

lemma transition_ok:
  assumes "registry_ok db" and "transition jobId newStatus errorMessage db = Inr db'"
  shows "registry_ok db'"
proof -
  let ?f = "\<lambda>j. if sj_id j = jobId
                 then j\<lparr>sj_status := newStatus, sj_error_message := errorMessage\<rparr> else j"
  from transition_InrD [OF assms(2)] obtain job where
    found: "find (\<lambda>j. sj_id j = jobId) (sync_jobs db) = Some job"
    and allowed: "job_transition_allowed (sj_status job) newStatus"
    and db': "db' = db\<lparr>sync_jobs := map ?f (sync_jobs db)\<rparr>"
    by blast
  from found have job: "job \<in> set (sync_jobs db)" "sj_id job = jobId"
    by (auto simp: find_Some_iff in_set_conv_nth)
  from assms(1) have inj: "inj_on sj_id (set (sync_jobs db))"
    by (simp add: registry_ok_def distinct_map)
  have only: "j = job" if "j \<in> set (sync_jobs db)" "sj_id j = jobId" for j
    using inj_onD [OF inj, of j job] that job by simp
  have nt: "non_terminal (sj_status j)"
    if "j \<in> set (sync_jobs db)" "non_terminal (sj_status (?f j))" for j
  proof (cases "sj_id j = jobId")
    case True
    with only that(1) have "j = job" by simp
    moreover from True that(2) have "non_terminal newStatus" by simp
    ultimately show ?thesis
      using allowed_non_terminal [OF allowed] by simp
  next
    case False
    with that(2) show ?thesis by simp
  qed
  have src: "sj_source (?f j) = sj_source j" for j
    by simp
  from assms(1) have d: "distinct (map sj_source
      (filter (\<lambda>j. non_terminal (sj_status j)) (sync_jobs db)))"
    by (simp add: registry_ok_def one_non_terminal_per_source_def)
  from distinct_filter_map_sub [of sj_source "\<lambda>j. non_terminal (sj_status j)"
      "sync_jobs db" "\<lambda>j. non_terminal (sj_status j)" ?f, OF d nt src]
  have "distinct (map sj_source
      (filter (\<lambda>j. non_terminal (sj_status j)) (map ?f (sync_jobs db))))"
    by blast
  moreover from assms(1) have "distinct (map sj_id (map ?f (sync_jobs db)))"
    by (simp only: map_status_ids registry_ok_def)
  ultimately show ?thesis
    by (simp add: registry_ok_def one_non_terminal_per_source_def db')
qed

lemma registry_step_ok:
  assumes "registry_ok db"
  shows "registry_ok (registry_step op db)"
proof (cases op)
  case (CreateJob source freshStart creator)
  with assms show ?thesis
    by (auto split: sum.splits dest: createJob_ok)
next
  case (Transition jobId newStatus errorMessage)
  with assms show ?thesis
    by (auto split: sum.splits dest: transition_ok)
qed

lemma registry_run_ok:
  assumes "registry_ok db"
  shows "registry_ok (registry_run ops db)"
  using assms by (induction ops arbitrary: db) (simp_all add: registry_step_ok)

text \<open>
  Claim C7. Whenever a pending or running job exists for a source,
  \<^verbatim>\<open>createJob\<close> for that source fails with \<open>ConflictError\<close>; and after any history of
  creation attempts and status transitions, run one at a time in any order, every source
  has at most one non-terminal job.
\<close>

theorem createJob_conflict:
  assumes "registry_ok db"
  shows "((\<exists>j \<in> set (sync_jobs db). sj_source j = source \<and> non_terminal (sj_status j))
            \<longrightarrow> createJob source freshStart creator db = Inl ConflictError)
    \<and> one_non_terminal_per_source (registry_run ops db)
    \<and> (\<forall>src. length (filter (\<lambda>j. sj_source j = src \<and> non_terminal (sj_status j))
                 (sync_jobs (registry_run ops db))) \<le> 1)"
proof -
  have a: "(\<exists>j \<in> set (sync_jobs db). sj_source j = source \<and> non_terminal (sj_status j))
            \<longrightarrow> createJob source freshStart creator db = Inl ConflictError"
    by (simp add: createJob_def)
  from registry_run_ok [OF assms, of ops]
  have d: "distinct (map sj_source
      (filter (\<lambda>j. non_terminal (sj_status j)) (sync_jobs (registry_run ops db))))"
    by (simp add: registry_ok_def one_non_terminal_per_source_def)
  have "length (filter (\<lambda>j. sj_source j = src \<and> non_terminal (sj_status j)) xs) \<le> 1"
    if "distinct (map sj_source (filter (\<lambda>j. non_terminal (sj_status j)) xs))" for xs src
    using that
  proof (induction xs)
    case Nil
    then show ?case by simp
  next
    case (Cons x xs)
    show ?case
    proof (cases "sj_source x = src \<and> non_terminal (sj_status x)")
      case True
      with Cons.prems have "src \<notin> sj_source ` set (filter (\<lambda>j. non_terminal (sj_status j)) xs)"
        by auto
      then have "filter (\<lambda>j. sj_source j = src \<and> non_terminal (sj_status j)) xs = []"
        by (auto simp: filter_empty_conv)
      with True show ?thesis by simp
    next
      case False
      with Cons show ?thesis by (auto split: if_splits)
    qed
  qed
  from this [OF d] a d show ?thesis
    by (simp add: one_non_terminal_per_source_def)
qed

lemma ex_db_registry_ok: "registry_ok ex_db"
  by code_simp

lemma ex_registry_sources:
  "map sj_source (sync_jobs (registry_run ex_registry_ops ex_db)) = [''mitre'', ''cpr_blogs'']"
  by code_simp

theorem createJob_conflict_witness:
  "registry_ok ex_db \<and>
   createJob ''mitre'' False ''scheduler'' ex_db = Inl ConflictError \<and>
   one_non_terminal_per_source (registry_run ex_registry_ops ex_db) \<and>
   map sj_source (sync_jobs (registry_run ex_registry_ops ex_db)) = [''mitre'', ''cpr_blogs''] \<and>
   length (filter (\<lambda>j. sj_source j = ''cpr_blogs'' \<and> non_terminal (sj_status j))
     (sync_jobs (registry_run ex_registry_ops ex_db))) \<le> 1"
proof -
  have "\<exists>j \<in> set (sync_jobs ex_db). sj_source j = ''mitre'' \<and> non_terminal (sj_status j)"
    by (simp add: ex_db_def ex_job_def)
  with createJob_conflict [OF ex_db_registry_ok, of "''mitre''" False "''scheduler''"
      ex_registry_ops]
  show ?thesis
    using ex_db_registry_ok ex_registry_sources by blast
qed

section \<open>Properties of the Alias Promotion Protocol\<close>

text \<open>
  Claim C2. When a promotion attempt reaches the repoint step and the repoint fails, the
  failure is returned to the caller, no index changes (the old index is still
  \<open>active\<close>, the new one still \<open>created\<close>), and the log grows by exactly one record,
  with status \<open>failed\<close> and the failure reason.
\<close>

theorem promotion_failure_keeps_state:
  assumes "reaches_repoint p st"
    and "index_status_of p (pr_old_index p) st = Some IndexActive"
    and "index_status_of p (pr_new_index p) st = Some IndexCreated"
  shows "fst (promote p (SwapFailed reason) st) = Some (PromotionFailure reason)
    \<and> opensearch_indices (snd (promote p (SwapFailed reason) st)) = opensearch_indices st
    \<and> index_status_of p (pr_old_index p) (snd (promote p (SwapFailed reason) st))
        = Some IndexActive
    \<and> index_status_of p (pr_new_index p) (snd (promote p (SwapFailed reason) st))
        = Some IndexCreated
    \<and> (\<exists>a. alias_actions (snd (promote p (SwapFailed reason) st)) = alias_actions st @ [a]
          \<and> aa_status a = ActionFailed \<and> aa_reason a = Some reason
          \<and> aa_old_index_name a = Some (pr_old_index p)
          \<and> aa_new_index_name a = pr_new_index p)"
  using assms
  by (auto simp: promote_def reaches_repoint_def log_action_def index_status_of_def)

lemma ex_promotion_pre:
  "reaches_repoint ex_promotion ex_store"
  "index_status_of ex_promotion (pr_old_index ex_promotion) ex_store = Some IndexActive"
  "index_status_of ex_promotion (pr_new_index ex_promotion) ex_store = Some IndexCreated"
  by code_simp+

theorem promotion_failure_keeps_state_witness:
  "reaches_repoint ex_promotion ex_store \<and>
   index_status_of ex_promotion ''mitre-v1'' ex_store = Some IndexActive \<and>
   index_status_of ex_promotion ''mitre-v2'' ex_store = Some IndexCreated \<and>
   fst (promote ex_promotion (SwapFailed ''timeout'') ex_store)
     = Some (PromotionFailure ''timeout'') \<and>
   index_status_of ex_promotion ''mitre-v1''
     (snd (promote ex_promotion (SwapFailed ''timeout'') ex_store)) = Some IndexActive \<and>
   index_status_of ex_promotion ''mitre-v2''
     (snd (promote ex_promotion (SwapFailed ''timeout'') ex_store)) = Some IndexCreated \<and>
   map aa_status (alias_actions (snd (promote ex_promotion (SwapFailed ''timeout'') ex_store)))
     = [ActionFailed] \<and>
   map aa_reason (alias_actions (snd (promote ex_promotion (SwapFailed ''timeout'') ex_store)))
     = [Some ''timeout'']"
proof -
  from promotion_failure_keeps_state [OF ex_promotion_pre, of "''timeout''"]
  obtain a where
    "fst (promote ex_promotion (SwapFailed ''timeout'') ex_store)
       = Some (PromotionFailure ''timeout'')"
    "index_status_of ex_promotion (pr_old_index ex_promotion)
       (snd (promote ex_promotion (SwapFailed ''timeout'') ex_store)) = Some IndexActive"
    "index_status_of ex_promotion (pr_new_index ex_promotion)
       (snd (promote ex_promotion (SwapFailed ''timeout'') ex_store)) = Some IndexCreated"
    "alias_actions (snd (promote ex_promotion (SwapFailed ''timeout'') ex_store))
       = alias_actions ex_store @ [a]"
    "aa_status a = ActionFailed" "aa_reason a = Some ''timeout''"
    by blast
  then show ?thesis
    using ex_promotion_pre by (simp add: ex_promotion_def ex_store_def)
qed

section \<open>Properties of the migration runner\<close>










lemma query_begin_idle:
  assumes "tx s = TxIdle"
  shows "query [Begin] s = (None, s\<lparr>tx := TxBlock (committed s)\<rparr>)"
  using assms by (simp add: query_def start_implicit_def end_implicit_def)

lemma query_create_in_block:
  "query [create_migrations_table] (s\<lparr>tx := TxBlock d\<rparr>)
     = (None, s\<lparr>tx := TxBlock (d\<lparr>migrations := Some (recorded d)\<rparr>)\<rparr>)"
  by (cases "migrations d")
    (simp_all add: query_def start_implicit_def end_implicit_def create_migrations_table_def
      recorded_def)

lemma select_names_in_block:
  assumes "migrations d = Some names"
  shows "select_names (s\<lparr>tx := TxBlock d\<rparr>) = (Inr names, s\<lparr>tx := TxBlock d\<rparr>)"
  using assms by (simp add: select_names_def)

lemma query_commit:
  assumes "between_queries s"
  shows "query [Commit] s = (None, \<lparr>committed = current s, tx = TxIdle\<rparr>)"
  using assms
  by (auto simp: query_def start_implicit_def end_implicit_def between_queries_def current_def
      split: tx_state.splits)

lemma try_block_idle:
  assumes "tx s = TxIdle"
  shows "try_block dir s =
     (case apply_migrations (filter (\<lambda>f. f \<notin> set (recorded (committed s))) (readdirSync dir))
             dir (s\<lparr>tx := TxBlock ((committed s)\<lparr>migrations := Some (recorded (committed s))\<rparr>)\<rparr>) of
        (Some e, s4) \<Rightarrow> (Some e, s4)
      | (None, s4) \<Rightarrow> query [Commit] s4)"
  by (simp add: try_block_def query_begin_idle [OF assms] query_create_in_block
      select_names_in_block)






text \<open>
  When no migration file commits, a run that fails leaves the session as it found it:
  the runner's \<^verbatim>\<open>ROLLBACK\<close> undoes every migration of the run and every recorded name.
\<close>

lemma exec_plain_stmt:
  assumes "in_block c0 None s" and "x \<noteq> FileCommit"
    and "exec_stmt (as_stmt x) (start_implicit s) = (r, s')"
  shows "in_block c0 r s'"
  using assms
  by (cases x)
    (auto simp: in_block_def start_implicit_def split: tx_state.splits option.splits)

lemma exec_plain_stmts:
  assumes "in_block c0 None s" and "FileCommit \<notin> set sql"
    and "exec_stmts (map as_stmt sql) s = (r, s')"
  shows "in_block c0 r s'"
  using assms
proof (induction sql arbitrary: s)
  case Nil
  then show ?case by simp
next
  case (Cons x sql)
  obtain r1 s1 where x: "exec_stmt (as_stmt x) (start_implicit s) = (r1, s1)"
    by (cases "exec_stmt (as_stmt x) (start_implicit s)")
  from Cons.prems(2) have "x \<noteq> FileCommit" by auto
  note b1 = exec_plain_stmt [OF Cons.prems(1) this x]
  show ?case
  proof (cases r1)
    case None
    with Cons.prems(3) x have "exec_stmts (map as_stmt sql) s1 = (r, s')" by simp
    with Cons.IH [of s1] b1 None Cons.prems(2) show ?thesis by simp
  next
    case (Some e)
    with Cons.prems(3) x b1 show ?thesis by auto
  qed
qed

lemma end_implicit_in_block: "in_block c0 r s \<Longrightarrow> end_implicit s = s"
  by (auto simp: in_block_def end_implicit_def split: tx_state.splits)

lemma query_plain_file:
  assumes "in_block c0 None s" and "FileCommit \<notin> set sql"
    and "query (map as_stmt sql) s = (r, s')"
  shows "in_block c0 r s'"
proof -
  obtain s1 where run: "exec_stmts (map as_stmt sql) s = (r, s1)" and s': "s' = end_implicit s1"
    using assms(3) by (auto simp: query_def split: prod.splits)
  from exec_plain_stmts [OF assms(1,2) run] show ?thesis
    by (simp add: s' end_implicit_in_block)
qed

lemma query_insert_in_block:
  assumes "in_block c0 None s" and "query [insert_migration f] s = (r, s')"
  shows "in_block c0 r s'"
  using assms
  by (auto simp: in_block_def query_def insert_migration_def start_implicit_def
      end_implicit_def split: tx_state.splits option.splits)

lemma apply_plain_migrations:
  assumes "in_block c0 None s"
    and "\<And>f sql. readFileSync dir f = Some sql \<Longrightarrow> FileCommit \<notin> set sql"
    and "apply_migrations fs dir s = (r, s')"
  shows "in_block c0 r s'"
  using assms(1,3)
proof (induction fs arbitrary: s)
  case Nil
  then show ?case by simp
next
  case (Cons f fs)
  show ?case
  proof (cases "readFileSync dir f")
    case None
    with Cons.prems show ?thesis by (auto simp: in_block_def split: tx_state.splits)
  next
    case (Some sql)
    obtain r1 s1 where q1: "query (map as_stmt sql) s = (r1, s1)"
      by (cases "query (map as_stmt sql) s")
    note b1 = query_plain_file [OF Cons.prems(1) assms(2) [OF Some] q1]
    show ?thesis
    proof (cases r1)
      case (Some e)
      with Cons.prems(2) \<open>readFileSync dir f = Some sql\<close> q1 b1 show ?thesis by auto
    next
      case None
      obtain r2 s2 where q2: "query [insert_migration f] s1 = (r2, s2)"
        by (cases "query [insert_migration f] s1")
      from b1 None have "in_block c0 None s1" by simp
      note b2 = query_insert_in_block [OF this q2]
      show ?thesis
      proof (cases r2)
        case (Some e)
        with Cons.prems(2) \<open>readFileSync dir f = Some sql\<close> q1 \<open>r1 = None\<close> q2 b2
        show ?thesis by auto
      next
        case None
        with Cons.prems(2) \<open>readFileSync dir f = Some sql\<close> q1 \<open>r1 = None\<close> q2
        have "apply_migrations fs dir s2 = (r, s')" by simp
        with Cons.IH [of s2] b2 None show ?thesis by simp
      qed
    qed
  qed
qed

lemma runMigrations_plain_files_atomic:
  assumes "tx s = TxIdle"
    and "\<And>f sql. readFileSync dir f = Some sql \<Longrightarrow> FileCommit \<notin> set sql"
    and "runMigrations dir s = (Some e, s')"
  shows "s' = s"
proof -
  let ?s2 = "s\<lparr>tx := TxBlock ((committed s)\<lparr>migrations := Some (recorded (committed s))\<rparr>)\<rparr>"
  let ?new = "filter (\<lambda>f. f \<notin> set (recorded (committed s))) (readdirSync dir)"
  obtain r4 s4 where loop: "apply_migrations ?new dir ?s2 = (r4, s4)"
    by (cases "apply_migrations ?new dir ?s2")
  have "in_block (committed s) None ?s2" by (simp add: in_block_def)
  from apply_plain_migrations [OF this assms(2) loop]
  have b4: "in_block (committed s) r4 s4" .
  show ?thesis
  proof (cases r4)
    case None
    with b4 have "between_queries s4"
      by (auto simp: in_block_def between_queries_def split: tx_state.splits)
    with assms(3) loop None show ?thesis
      by (simp add: runMigrations_def try_block_idle [OF assms(1)] query_commit)
  next
    case (Some e4)
    with assms(3) loop have "s' = snd (query [Rollback] s4)"
      by (simp add: runMigrations_def try_block_idle [OF assms(1)])
    also have "\<dots> = s4\<lparr>tx := TxIdle\<rparr>"
      using b4 by (auto simp: query_def start_implicit_def end_implicit_def in_block_def
          split: tx_state.splits)
    also have "\<dots> = s"
      using b4 assms(1) by (simp add: in_block_def)
    finally show ?thesis .
  qed
qed

text \<open>
  Claim C4 fails on the repository's own migration. \<^verbatim>\<open>001_initial.sql\<close> ends with
  \<^verbatim>\<open>COMMIT\<close>, which commits the runner's transaction; the \<^verbatim>\<open>INSERT\<close> of its name then
  commits on its own. When the second migration fails the runner's \<^verbatim>\<open>ROLLBACK\<close> finds
  nothing to undo: the error reaches the caller, but both tables of the first migration
  exist and its name is recorded.
\<close>

theorem runMigrations_partial_batch:
  "runMigrations ex_dir ex_fresh = (Some QueryFailed, ex_migrated) \<and>
   committed ex_migrated \<noteq> committed ex_fresh \<and>
   migrations (committed ex_migrated) = Some [''001_initial.sql''] \<and>
   schema_objects (committed ex_migrated) = [''sync_jobs'', ''documents'']"
  by code_simp

section \<open>Properties of the job coordinator\<close>

lemma resumed_mono:
  assumes "resumed w out n1 n' c c'" and "n \<le> n1"
  shows "resumed w out n n' c c'"
proof (cases c)
  case (Blocked race)
  with assms show ?thesis
    by (cases out; cases "w \<in> set race") (auto simp: resumed_def)
qed (use assms in \<open>simp_all add: resumed_def\<close>)

lemma interval_head: "Suc n \<le> n' \<Longrightarrow> insert n (A \<union> {Suc n..<n'}) = A \<union> {n..<n'}"
  by auto

lemma resume_props:
  assumes "resume w out cs ws n = (cs', ws', n')"
  shows "n \<le> n' \<and> list_all2 (resumed w out n n') cs cs'
    \<and> set ws' = set ws \<union> {n..<n'}
    \<and> n' + length (filter is_started cs) = n + length (filter is_started cs')"
  using assms
proof (induction w out cs ws n arbitrary: cs' ws' n' rule: resume.induct)
  case (1 w out ws n)
  then show ?case by simp
next
  case (2 w out race cs ws n)
  show ?case
  proof (cases "w \<in> set race")
    case False
    with "2.prems" obtain cs1 where r: "resume w out cs ws n = (cs1, ws', n')"
      and cs': "cs' = Blocked race # cs1"
      by (auto split: prod.splits)
    from "2.IH"(3) [OF False r] False show ?thesis
      by (simp add: cs' resumed_def)
  next
    case True
    show ?thesis
    proof (cases out)
      case (Resolved v)
      with True "2.prems" obtain cs1 where
        r: "resume w out cs (ws @ [n]) (Suc n) = (cs1, ws', n')"
        and cs': "cs' = Started n # cs1"
        by (auto split: prod.splits)
      from "2.IH"(1) [OF True Resolved r] have
        ih: "Suc n \<le> n'" "list_all2 (resumed w out (Suc n) n') cs cs1"
        "set ws' = set (ws @ [n]) \<union> {Suc n..<n'}"
        "n' + length (filter is_started cs) = Suc n + length (filter is_started cs1)"
        by simp_all
      have "list_all2 (resumed w out n n') cs cs1"
        by (rule list_all2_mono [OF ih(2)]) (erule resumed_mono, simp)
      moreover have "resumed w out n n' (Blocked race) (Started n)"
        using True Resolved ih(1) by (simp add: resumed_def)
      moreover have "set ws' = set ws \<union> {n..<n'}"
        using ih(3) interval_head [OF ih(1), of "set ws"] by simp
      ultimately show ?thesis
        using ih(1,4) by (simp add: cs')
    next
      case (Rejected f)
      with True "2.prems" obtain cs1 where r: "resume w out cs ws n = (cs1, ws', n')"
        and cs': "cs' = Thrown f # cs1"
        by (auto split: prod.splits)
      from "2.IH"(2) [OF True Rejected r] True Rejected show ?thesis
        by (simp add: cs' resumed_def)
    qed
  qed
next
  case (3 w out k cs ws n)
  then obtain cs1 where r: "resume w out cs ws n = (cs1, ws', n')"
    and cs': "cs' = Started k # cs1"
    by (auto split: prod.splits)
  from "3.IH" [OF r] show ?case
    by (simp add: cs' resumed_def)
next
  case (4 w out f cs ws n)
  then obtain cs1 where r: "resume w out cs ws n = (cs1, ws', n')"
    and cs': "cs' = Thrown f # cs1"
    by (auto split: prod.splits)
  from "4.IH" [OF r] show ?case
    by (simp add: cs' resumed_def)
qed

lemma resume_rejected_spawns_nothing:
  "snd (snd (resume w (Rejected f) cs ws n)) = n"
proof (induction cs arbitrary: ws n)
  case Nil
  then show ?case by simp
next
  case (Cons c cs)
  show ?case
    by (cases c) (use Cons.IH [of ws n] in \<open>auto split: prod.splits\<close>)
qed

lemma inv_JobCoordinator: "coordinator_inv (JobCoordinator m)"
  by (simp add: coordinator_inv_def JobCoordinator_def)

lemma call_ok_mono:
  assumes "call_ok c cs" and "spawned c \<le> spawned c'" and "settled c' = settled c"
  shows "call_ok c' cs"
  using assms by (cases cs) (auto simp: call_ok_def list_all_iff)

lemma inv_runJob:
  assumes "coordinator_inv c"
  shows "coordinator_inv (runJob c)"
proof (cases "maxParallel c \<le> length (running c)")
  case True
  with assms show ?thesis
    by (auto simp: coordinator_inv_def runJob_def call_ok_def list_all_iff
        split: call_state.splits)
next
  case False
  from assms have fresh: "settled c (spawned c) = None"
    by (auto simp: coordinator_inv_def)
  from assms have "list_all (call_ok c) (calls c)"
    by (simp add: coordinator_inv_def)
  then have "list_all (call_ok (runJob c)) (calls c)"
    using False by (auto simp: list_all_iff runJob_def intro: call_ok_mono)
  with assms fresh False show ?thesis
    by (auto simp: coordinator_inv_def runJob_def call_ok_def list_all_iff less_Suc_eq)
qed

lemma settle_fields:
  assumes "resume w out (calls c) (filter (\<lambda>x. x \<noteq> w) (running c)) (spawned c) = (cs', ws', n')"
  shows "settle w out c =
     c\<lparr>settled := (settled c)(w := Some out), running := ws', calls := cs', spawned := n'\<rparr>"
  using assms by (simp add: settle_def)

lemma inv_settle:
  assumes inv: "coordinator_inv c" and w: "w < spawned c" "settled c w = None"
  shows "coordinator_inv (settle w out c)"
proof -
  obtain cs' ws' n' where
    r: "resume w out (calls c) (filter (\<lambda>x. x \<noteq> w) (running c)) (spawned c) = (cs', ws', n')"
    by (metis prod_cases3)
  note p = resume_props [OF r]
  let ?c' = "settle w out c"
  have f: "settled ?c' = (settled c)(w := Some out)" "running ?c' = ws'" "calls ?c' = cs'"
    "spawned ?c' = n'"
    by (simp_all add: settle_fields [OF r])
  from p have le: "spawned c \<le> n'" by simp
  have i1: "x < n'" if "settled ?c' x \<noteq> None" for x
    using that inv w(1) le by (auto simp: f coordinator_inv_def split: if_splits)
  have pend: "settled ?c' x = None" if "x \<noteq> w" "settled c x = None" for x
    using that by (simp add: f)
  have fresh: "settled c x = None" if "spawned c \<le> x" for x
    using that inv by (auto simp: coordinator_inv_def)
  have i2: "x < n' \<and> settled ?c' x = None" if "x \<in> set ws'" for x
  proof -
    from that p have "(x \<in> set (running c) \<and> x \<noteq> w) \<or> (spawned c \<le> x \<and> x < n')"
      by auto
    then show ?thesis
    proof
      assume "x \<in> set (running c) \<and> x \<noteq> w"
      with inv le show ?thesis
        by (auto simp: coordinator_inv_def list_all_iff intro: pend)
    next
      assume "spawned c \<le> x \<and> x < n'"
      with w(1) fresh [of x] show ?thesis
        by (auto intro: pend)
    qed
  qed
  have i3: "call_ok ?c' b" if "b \<in> set cs'" for b
  proof -
    from p have l2: "list_all2 (resumed w out (spawned c) n') (calls c) cs'" by simp
    from that obtain i where i: "i < length cs'" "b = cs' ! i"
      by (auto simp: in_set_conv_nth)
    from l2 i(1) have "i < length (calls c)"
      by (simp add: list_all2_lengthD)
    moreover from l2 i have "resumed w out (spawned c) n' (calls c ! i) b"
      by (simp add: list_all2_nthD2)
    ultimately obtain a where a: "a \<in> set (calls c)" "resumed w out (spawned c) n' a b"
      using nth_mem by blast
    from inv a(1) have oka: "call_ok c a"
      by (simp add: coordinator_inv_def list_all_iff)
    show ?thesis
    proof (cases a)
      case (Blocked race)
      show ?thesis
      proof (cases "w \<in> set race")
        case True
        with a(2) Blocked f(4) show ?thesis
          by (cases out) (auto simp: resumed_def call_ok_def)
      next
        case False
        with a(2) Blocked have b: "b = Blocked race" by (simp add: resumed_def)
        from oka Blocked have "\<forall>x\<in>set race. x < spawned c \<and> settled c x = None"
          by (simp add: call_ok_def list_all_iff)
        with False le show ?thesis
          by (auto simp: b call_ok_def list_all_iff f)
      qed
    next
      case (Started k)
      with a(2) oka le show ?thesis
        by (auto simp: resumed_def call_ok_def f)
    next
      case (Thrown g)
      with a(2) show ?thesis
        by (auto simp: resumed_def call_ok_def)
    qed
  qed
  have i4: "n' = length (filter is_started cs')"
    using p inv by (simp add: coordinator_inv_def)
  show ?thesis
    unfolding coordinator_inv_def f(2-4)
    using i1 i2 i3 i4 by (auto simp: list_all_iff f(4))
qed

lemma inv_step:
  assumes "coordinator_inv c"
  shows "coordinator_inv (step e c)"
proof (cases e)
  case RunJob
  with assms show ?thesis by (simp add: inv_runJob)
next
  case (Deliver w ev)
  with assms show ?thesis
    by (auto simp: deliver_def inv_settle split: option.splits)
qed

lemma inv_run_events:
  assumes "coordinator_inv c"
  shows "coordinator_inv (run_events es c)"
  using assms by (induction es arbitrary: c) (simp_all add: inv_step)

lemma settle_calls:
  "length (calls (settle w out c)) = length (calls c)"
  "i < length (calls c) \<Longrightarrow>
     \<exists>n'. resumed w out (spawned c) n' (calls c ! i) (calls (settle w out c) ! i)"
proof -
  obtain cs' ws' n' where
    r: "resume w out (calls c) (filter (\<lambda>x. x \<noteq> w) (running c)) (spawned c) = (cs', ws', n')"
    by (metis prod_cases3)
  from resume_props [OF r] have l2: "list_all2 (resumed w out (spawned c) n') (calls c) cs'"
    by simp
  have cs: "calls (settle w out c) = cs'"
    by (simp add: settle_fields [OF r])
  show "length (calls (settle w out c)) = length (calls c)"
    using l2 by (simp add: cs list_all2_lengthD)
  show "\<exists>n'. resumed w out (spawned c) n' (calls c ! i) (calls (settle w out c) ! i)"
    if "i < length (calls c)"
    using l2 that by (auto simp: cs dest: list_all2_nthD)
qed

lemma step_calls_length: "length (calls c) \<le> length (calls (step e c))"
  by (cases e) (auto simp: runJob_def deliver_def settle_calls(1) split: option.splits)

lemma step_keeps_started:
  assumes "i < length (calls c)" and "calls c ! i = Started k"
  shows "calls (step e c) ! i = Started k"
proof (cases e)
  case RunJob
  with assms show ?thesis by (simp add: runJob_def nth_append)
next
  case (Deliver w ev)
  show ?thesis
  proof (cases "w < spawned c \<and> settled c w = None \<and> on_event ev \<noteq> None")
    case True
    then obtain out where "step e c = settle w out c"
      by (auto simp: Deliver deliver_def)
    with settle_calls(2) [OF assms(1), of w out] assms(2) show ?thesis
      by (auto simp: resumed_def)
  next
    case False
    with assms(2) show ?thesis
      by (auto simp: Deliver deliver_def split: option.splits)
  qed
qed

lemma step_keeps_thrown:
  assumes "i < length (calls c)" and "calls c ! i = Thrown f"
  shows "calls (step e c) ! i = Thrown f"
proof (cases e)
  case RunJob
  with assms show ?thesis by (simp add: runJob_def nth_append)
next
  case (Deliver w ev)
  show ?thesis
  proof (cases "w < spawned c \<and> settled c w = None \<and> on_event ev \<noteq> None")
    case True
    then obtain out where "step e c = settle w out c"
      by (auto simp: Deliver deliver_def)
    with settle_calls(2) [OF assms(1), of w out] assms(2) show ?thesis
      by (auto simp: resumed_def)
  next
    case False
    with assms(2) show ?thesis
      by (auto simp: Deliver deliver_def split: option.splits)
  qed
qed

lemma settle_settled: "settled (settle w out c) = (settled c)(w := Some out)"
  by (simp add: settle_def split: prod.splits)

lemma step_keeps_settled:
  assumes "settled c k = Some out"
  shows "settled (step e c) k = Some out"
  using assms
  by (cases e) (auto simp: runJob_def deliver_def settle_settled split: option.splits)

lemma run_keeps_started:
  assumes "i < length (calls c)" and "calls c ! i = Started k"
  shows "i < length (calls (run_events es c)) \<and> calls (run_events es c) ! i = Started k"
  using assms
proof (induction es arbitrary: c)
  case Nil
  then show ?case by simp
next
  case (Cons e es)
  from Cons.prems(1) step_calls_length [of c e] have "i < length (calls (step e c))"
    by simp
  from Cons.IH [OF this step_keeps_started [OF Cons.prems]] show ?case
    by simp
qed

lemma run_keeps_thrown:
  assumes "i < length (calls c)" and "calls c ! i = Thrown f"
  shows "i < length (calls (run_events es c)) \<and> calls (run_events es c) ! i = Thrown f"
  using assms
proof (induction es arbitrary: c)
  case Nil
  then show ?case by simp
next
  case (Cons e es)
  from Cons.prems(1) step_calls_length [of c e] have "i < length (calls (step e c))"
    by simp
  from Cons.IH [OF this step_keeps_thrown [OF Cons.prems]] show ?case
    by simp
qed

lemma run_keeps_settled:
  assumes "settled c k = Some out"
  shows "settled (run_events es c) k = Some out"
  using assms by (induction es arbitrary: c) (simp_all add: step_keeps_settled)

lemma run_events_append: "run_events (es1 @ es2) c = run_events es2 (run_events es1 c)"
  by (induction es1 arbitrary: c) simp_all

lemma run_calls_length: "length (calls c) \<le> length (calls (run_events es c))"
proof (induction es arbitrary: c)
  case Nil
  then show ?case by simp
next
  case (Cons e es)
  from step_calls_length [of c e] Cons.IH [of "step e c"] show ?case
    by simp
qed

lemma spawned_le_calls:
  assumes "coordinator_inv c"
  shows "spawned c \<le> length (calls c)"
  using assms by (simp add: coordinator_inv_def)

text \<open>A blocked call whose race contains \<open>w\<close> is thrown when \<open>w\<close> fails.\<close>

lemma blocked_thrown:
  assumes inv: "coordinator_inv c" and i: "i < length (calls c)"
    and b: "calls c ! i = Blocked race" and w: "w \<in> set race"
    and ev: "on_event ev = Some (Rejected f)"
  shows "calls (deliver w ev c) ! i = Thrown f" and "spawned (deliver w ev c) = spawned c"
proof -
  from inv i b have "call_ok c (Blocked race)"
    by (metis coordinator_inv_def list_all_iff nth_mem)
  with w have p: "w < spawned c" "settled c w = None"
    by (auto simp: call_ok_def list_all_iff)
  then have d: "deliver w ev c = settle w (Rejected f) c"
    by (simp add: deliver_def ev)
  from settle_calls(2) [OF i, of w "Rejected f"] b w
  show "calls (deliver w ev c) ! i = Thrown f"
    by (auto simp: d resumed_def)
  show "spawned (deliver w ev c) = spawned c"
    using resume_rejected_spawns_nothing
      [of w f "calls c" "filter (\<lambda>x. x \<noteq> w) (running c)" "spawned c"]
    by (auto simp: d settle_def split: prod.splits)
qed

text \<open>
  Claim C9. Let \<^verbatim>\<open>runJob\<close> be called while the workers in \<^verbatim>\<open>running\<close> are at the
  ceiling: the call suspends on their race. If, while it is still suspended, one of
  those workers fails (an \<^verbatim>\<open>error\<close> event, or an \<^verbatim>\<open>exit\<close> with a code other than
  \<open>0\<close>), the call throws that worker's error: the promise it returned is rejected with
  it, the failure starts no worker, and whatever happens later the call never has one.
\<close>

theorem blocked_runJob_rejects:
  assumes "c = run_events history (JobCoordinator m)"
    and "maxParallel c \<le> length (running c)"
    and "w \<in> set (running c)"
    and "on_event ev = Some (Rejected f)"
    and "calls (run_events mid (runJob c)) ! length (calls c) = Blocked (running c)"
  shows "calls (runJob c) ! length (calls c) = Blocked (running c)
    \<and> calls (run_events (mid @ Deliver w ev # later) (runJob c)) ! length (calls c) = Thrown f
    \<and> returned (run_events (mid @ Deliver w ev # later) (runJob c)) (length (calls c))
        = Some (Rejected f)
    \<and> spawned (run_events (mid @ [Deliver w ev]) (runJob c))
        = spawned (run_events mid (runJob c))"
proof -
  let ?i = "length (calls c)"
  let ?c1 = "run_events mid (runJob c)"
  have inv: "coordinator_inv c"
    unfolding assms(1) by (rule inv_run_events [OF inv_JobCoordinator])
  then have inv1: "coordinator_inv ?c1"
    by (intro inv_run_events inv_runJob)
  have blocks: "calls (runJob c) ! ?i = Blocked (running c)"
    using assms(2) by (simp add: runJob_def)
  have "?i < length (calls (runJob c))"
    by (simp add: runJob_def)
  with run_calls_length [of "runJob c" mid] have i1: "?i < length (calls ?c1)"
    by simp
  note t = blocked_thrown [OF inv1 i1 assms(5,3,4)]
  from t(1) step_calls_length [of ?c1 "Deliver w ev"] i1
  have i2: "?i < length (calls (deliver w ev ?c1))" by simp
  from run_keeps_thrown [OF i2 t(1), of later]
  have thrown: "calls (run_events (mid @ Deliver w ev # later) (runJob c)) ! ?i = Thrown f"
    by (simp add: run_events_append)
  then have "returned (run_events (mid @ Deliver w ev # later) (runJob c)) ?i
      = Some (Rejected f)"
    by (simp add: returned_def)
  with blocks thrown t(2) show ?thesis
    by (simp add: run_events_append)
qed

lemma ex_busy_state:
  "maxParallel (run_events ex_busy (JobCoordinator 3))
     \<le> length (running (run_events ex_busy (JobCoordinator 3)))"
  "1 \<in> set (running (run_events ex_busy (JobCoordinator 3)))"
  "calls (run_events [RunJob] (runJob (run_events ex_busy (JobCoordinator 3))))
     ! length (calls (run_events ex_busy (JobCoordinator 3)))
   = Blocked (running (run_events ex_busy (JobCoordinator 3)))"
  "running (run_events ex_busy (JobCoordinator 3)) = [0, 1, 2]"
  "length (calls (run_events ex_busy (JobCoordinator 3))) = 3"
  by code_simp+

theorem blocked_runJob_rejects_witness:
  "maxParallel (run_events ex_busy (JobCoordinator 3))
     \<le> length (running (run_events ex_busy (JobCoordinator 3))) \<and>
   1 \<in> set (running (run_events ex_busy (JobCoordinator 3))) \<and>
   on_event (Exit 1) = Some (Rejected (StoppedWithCode 1)) \<and>
   calls (run_events [RunJob] (runJob (run_events ex_busy (JobCoordinator 3)))) ! 3
     = Blocked [0, 1, 2] \<and>
   calls (run_events ([RunJob] @ Deliver 1 (Exit 1) # [Deliver 0 (Message ''done'')])
      (runJob (run_events ex_busy (JobCoordinator 3)))) ! 3 = Thrown (StoppedWithCode 1) \<and>
   returned (run_events ([RunJob] @ Deliver 1 (Exit 1) # [Deliver 0 (Message ''done'')])
      (runJob (run_events ex_busy (JobCoordinator 3)))) 3
     = Some (Rejected (StoppedWithCode 1))"
proof -
  have ev: "on_event (Exit 1) = Some (Rejected (StoppedWithCode 1))" by simp
  from blocked_runJob_rejects [OF refl ex_busy_state(1,2) ev ex_busy_state(3),
      of "[Deliver 0 (Message ''done'')]"]
  show ?thesis
    using ex_busy_state ev by simp
qed

lemma started_settles:
  assumes inv: "coordinator_inv c" and i: "i < length (calls c)"
    and s: "calls c ! i = Started w" and p: "settled c w = None"
    and ev: "on_event ev = Some out"
  shows "returned (run_events (Deliver w ev # later) c) i = Some out"
proof -
  from inv i s have "call_ok c (Started w)"
    by (metis coordinator_inv_def list_all_iff nth_mem)
  then have "w < spawned c" by (simp add: call_ok_def)
  with p ev have d: "deliver w ev c = settle w out c"
    by (simp add: deliver_def)
  have "settled (deliver w ev c) w = Some out"
    by (simp add: d settle_settled)
  then have a: "settled (run_events (Deliver w ev # later) c) w = Some out"
    by (simp add: run_keeps_settled)
  from run_keeps_started [OF i s, of "Deliver w ev # later"]
  have "calls (run_events (Deliver w ev # later) c) ! i = Started w"
    by simp
  with a show ?thesis by (simp add: returned_def)
qed

text \<open>
  Once a worker's promise has settled, no event of that worker changes anything: the
  state after it is the state before it.
\<close>

lemma settled_ignores_events:
  assumes "settled c w = Some out"
  shows "deliver w ev c = c"
  using assms by (simp add: deliver_def)

lemma first_event_is_final:
  assumes inv: "coordinator_inv c" and i: "i < length (calls c)"
    and s: "calls c ! i = Started w" and p: "settled c w = None"
    and ev: "on_event ev = Some out"
  shows "run_events (Deliver w ev # mid @ [Deliver w ev']) c = run_events (Deliver w ev # mid) c"
proof -
  from inv i s have "call_ok c (Started w)"
    by (metis coordinator_inv_def list_all_iff nth_mem)
  then have "w < spawned c" by (simp add: call_ok_def)
  with p ev have d: "deliver w ev c = settle w out c"
    by (simp add: deliver_def)
  have "settled (deliver w ev c) w = Some out"
    by (simp add: d settle_settled)
  then have "settled (run_events mid (deliver w ev c)) w = Some out"
    by (rule run_keeps_settled)
  then have "deliver w ev' (run_events mid (deliver w ev c)) = run_events mid (deliver w ev c)"
    by (rule settled_ignores_events)
  then show ?thesis
    by (simp add: run_events_append)
qed

text \<open>
  Claim C8, as amended. Take a worker the coordinator has started and whose promise is
  still pending. An \<^verbatim>\<open>exit\<close> with a code other than \<open>0\<close> rejects the promise returned
  to the submitter with the error naming that code, an \<^verbatim>\<open>error\<close> event rejects it with
  that error, and a \<^verbatim>\<open>message\<close> resolves it; the outcome stands whatever happens
  later. An \<^verbatim>\<open>exit\<close>, with any code, that follows the worker's first \<^verbatim>\<open>message\<close> or
  \<^verbatim>\<open>error\<close> event, at once or after any other events, changes nothing: the
  coordinator is in the state it was in before that \<^verbatim>\<open>exit\<close>. The call keeps the
  worker it started, and the coordinator never has more workers than calls: it retries
  nothing.
\<close>

theorem abnormal_exit_rejects:
  assumes "c = run_events history (JobCoordinator m)"
    and "i < length (calls c)" and "calls c ! i = Started w" and "returned c i = None"
  shows "(code \<noteq> 0 \<longrightarrow>
            returned (run_events (Deliver w (Exit code) # later) c) i
              = Some (Rejected (StoppedWithCode code)))
    \<and> returned (run_events (Deliver w (Error e) # later) c) i = Some (Rejected (WorkerError e))
    \<and> returned (run_events (Deliver w (Message v) # later) c) i = Some (Resolved v)
    \<and> run_events (Deliver w (Message v) # mid @ [Deliver w (Exit code)]) c
        = run_events (Deliver w (Message v) # mid) c
    \<and> run_events (Deliver w (Error e) # mid @ [Deliver w (Exit code)]) c
        = run_events (Deliver w (Error e) # mid) c
    \<and> calls (run_events evs c) ! i = Started w
    \<and> spawned (run_events evs c) \<le> length (calls (run_events evs c))"
proof -
  have inv: "coordinator_inv c"
    unfolding assms(1) by (rule inv_run_events [OF inv_JobCoordinator])
  from assms(3,4) have p: "settled c w = None"
    by (simp add: returned_def)
  have "returned (run_events (Deliver w (Exit code) # later) c) i
          = Some (Rejected (StoppedWithCode code))" if "code \<noteq> 0"
    by (rule started_settles [OF inv assms(2,3) p]) (simp add: that)
  moreover have "returned (run_events (Deliver w (Error e) # later) c) i
      = Some (Rejected (WorkerError e))"
    by (rule started_settles [OF inv assms(2,3) p]) simp
  moreover have "returned (run_events (Deliver w (Message v) # later) c) i
      = Some (Resolved v)"
    by (rule started_settles [OF inv assms(2,3) p]) simp
  moreover have "run_events (Deliver w (Message v) # mid @ [Deliver w (Exit code)]) c
      = run_events (Deliver w (Message v) # mid) c"
    by (rule first_event_is_final [OF inv assms(2,3) p]) simp
  moreover have "run_events (Deliver w (Error e) # mid @ [Deliver w (Exit code)]) c
      = run_events (Deliver w (Error e) # mid) c"
    by (rule first_event_is_final [OF inv assms(2,3) p]) simp
  moreover have "calls (run_events evs c) ! i = Started w"
    using run_keeps_started [OF assms(2,3)] by simp
  moreover have "spawned (run_events evs c) \<le> length (calls (run_events evs c))"
    by (rule spawned_le_calls [OF inv_run_events [OF inv]])
  ultimately show ?thesis by simp
qed

lemma ex_first_call:
  "0 < length (calls (run_events [RunJob] (JobCoordinator 3)))"
  "calls (run_events [RunJob] (JobCoordinator 3)) ! 0 = Started 0"
  "returned (run_events [RunJob] (JobCoordinator 3)) 0 = None"
  by code_simp+

theorem abnormal_exit_rejects_witness:
  "0 < length (calls (run_events [RunJob] (JobCoordinator 3))) \<and>
   calls (run_events [RunJob] (JobCoordinator 3)) ! 0 = Started 0 \<and>
   returned (run_events [RunJob] (JobCoordinator 3)) 0 = None \<and>
   returned (run_events [Deliver 0 (Exit 1), Deliver 0 (Message ''late'')]
      (run_events [RunJob] (JobCoordinator 3))) 0 = Some (Rejected (StoppedWithCode 1)) \<and>
   returned (run_events [Deliver 0 (Error ''boom''), Deliver 0 (Exit 1)]
      (run_events [RunJob] (JobCoordinator 3))) 0 = Some (Rejected (WorkerError ''boom'')) \<and>
   returned (run_events [Deliver 0 (Message ''partial''), Deliver 0 (Exit 1)]
      (run_events [RunJob] (JobCoordinator 3))) 0 = Some (Resolved ''partial'') \<and>
   run_events [Deliver 0 (Message ''partial''), RunJob, Deliver 0 (Exit 1)]
      (run_events [RunJob] (JobCoordinator 3))
     = run_events [Deliver 0 (Message ''partial''), RunJob]
         (run_events [RunJob] (JobCoordinator 3)) \<and>
   calls (run_events [Deliver 0 (Exit 1), RunJob]
      (run_events [RunJob] (JobCoordinator 3))) ! 0 = Started 0 \<and>
   spawned (run_events [Deliver 0 (Exit 1), RunJob] (run_events [RunJob] (JobCoordinator 3)))
     \<le> length (calls (run_events [Deliver 0 (Exit 1), RunJob]
           (run_events [RunJob] (JobCoordinator 3))))"
  using abnormal_exit_rejects [OF refl ex_first_call, where code = 1
      and later = "[Deliver 0 (Message ''late'')]" and evs = "[Deliver 0 (Exit 1), RunJob]"]
    abnormal_exit_rejects [OF refl ex_first_call, where e = "''boom''"
      and later = "[Deliver 0 (Exit 1)]"]
    abnormal_exit_rejects [OF refl ex_first_call, where v = "''partial''" and code = 1
      and later = "[Deliver 0 (Exit 1)]" and mid = "[RunJob]"]
    ex_first_call
  by simp

text \<open>
  The claim as stated fails for a worker whose promise has settled before it stops: after
  a \<^verbatim>\<open>message\<close>, an \<^verbatim>\<open>exit\<close> with code \<open>1\<close> leaves the returned promise resolved;
  after an \<^verbatim>\<open>error\<close> event, as an uncaught exception in the worker raises before its
  \<^verbatim>\<open>exit\<close>, the promise is rejected with that error and not with one naming the code.
\<close>

theorem exit_not_surfaced_counterexample:
  "calls (run_events [RunJob] default_coordinator) ! 0 = Started 0 \<and>
   returned (run_events [RunJob, Deliver 0 (Message ''partial''), Deliver 0 (Exit 1)]
      default_coordinator) 0 = Some (Resolved ''partial'') \<and>
   returned (run_events [RunJob, Deliver 0 (Error ''boom''), Deliver 0 (Exit 1)]
      default_coordinator) 0 = Some (Rejected (WorkerError ''boom''))"
  by code_simp

text \<open>
  Claim C3 fails on the code. With the default ceiling of \<open>3\<close>, five calls made before
  any worker answers start three workers and leave two calls suspended on the same
  race. When worker \<open>0\<close> posts its message both calls continue, neither checks the
  ceiling again, and four workers are running.
\<close>

theorem runJob_exceeds_ceiling:
  "maxParallel default_coordinator = 3 \<and>
   running (run_events ex_five_calls default_coordinator) = [0, 1, 2] \<and>
   calls (run_events ex_five_calls default_coordinator)
     = [Started 0, Started 1, Started 2, Blocked [0, 1, 2], Blocked [0, 1, 2]] \<and>
   calls (run_events (ex_five_calls @ [Deliver 0 (Message ''done'')]) default_coordinator)
     = [Started 0, Started 1, Started 2, Started 3, Started 4] \<and>
   running (run_events (ex_five_calls @ [Deliver 0 (Message ''done'')]) default_coordinator)
     = [1, 2, 3, 4] \<and>
   length (running (run_events (ex_five_calls @ [Deliver 0 (Message ''done'')])
      default_coordinator)) > maxParallel default_coordinator"
  by code_simp

end
